theory Spec2Isabelle
  imports Main "HOL-Library.AList" "HOL-Library.Multiset" "HOL-Library.Sublist"
begin

section \<open>JavaScript values\<close>

text \<open>
  The scraper is duck-typed: a feed is a string or an object, an error is whatever
  a middleware hands to its callback, and \<^verbatim>\<open>if (x)\<close> and \<^verbatim>\<open>x || y\<close> test
  truthiness. Values are modelled as far as the scraper inspects them. Numbers are
  integers (the scraper only tests them for truthiness and uses one as the worker bound);
  objects are association lists read with \<open>map_of\<close>.
\<close>

datatype jsval =
    JUndefined
  | JNull
  | JBool bool
  | JNum int
  | JStr string
  | JObj "(string \<times> jsval) list"
  | JArr "jsval list"

fun truthy :: "jsval \<Rightarrow> bool" where
  "truthy JUndefined = False"
| "truthy JNull = False"
| "truthy (JBool b) = b"
| "truthy (JNum n) = (n \<noteq> 0)"
| "truthy (JStr s) = (s \<noteq> [])"
| "truthy (JObj ps) = True"
| "truthy (JArr xs) = True"

text \<open>\<^verbatim>\<open>a || b\<close>\<close>

definition js_or :: "jsval \<Rightarrow> jsval \<Rightarrow> jsval" where
  "js_or a b = (if truthy a then a else b)"

text \<open>
  \<^verbatim>\<open>v.k\<close> for a value that is neither \<^verbatim>\<open>null\<close> nor \<^verbatim>\<open>undefined\<close>, and a key
  among \<^verbatim>\<open>url\<close>, \<^verbatim>\<open>data\<close>, \<^verbatim>\<open>params\<close>, \<^verbatim>\<open>timeout\<close>: only an object carries
  such a property.
\<close>

fun property :: "jsval \<Rightarrow> string \<Rightarrow> jsval" where
  "property (JObj ps) k = (case map_of ps k of None \<Rightarrow> JUndefined | Some v \<Rightarrow> v)"
| "property v k = JUndefined"

text \<open>\<^verbatim>\<open>types.get\<close> of the typology package: the name of a value's type.\<close>

fun types_get :: "jsval \<Rightarrow> string" where
  "types_get JUndefined = ''undefined''"
| "types_get JNull = ''null''"
| "types_get (JBool b) = ''boolean''"
| "types_get (JNum n) = ''number''"
| "types_get (JStr s) = ''string''"
| "types_get (JObj ps) = ''object''"
| "types_get (JArr xs) = ''array''"

datatype error =
    Error string
  | TypeError string

section \<open>Jobs\<close>

record req =
  retries :: int
  data :: jsval
  params :: jsval
  url :: "jsval option"
  timeout :: "jsval option"

record job =
  job_id :: string
  original :: jsval
  job_state :: "(string \<times> jsval) list"
  req :: req
  res :: "(string \<times> jsval) list"

text \<open>
  \<^verbatim>\<open>createJob(feed)\<close>, lines 99 to 133. The identifier comes from \<^verbatim>\<open>uuid.v4()\<close>,
  taken as an argument. A property that was never assigned is \<open>None\<close>. Reading
  \<^verbatim>\<open>feed.url\<close> of \<^verbatim>\<open>null\<close> or \<^verbatim>\<open>undefined\<close> raises a TypeError; a falsy
  \<^verbatim>\<open>feed.url\<close> raises the scraper's own error.
\<close>

definition createJob :: "string \<Rightarrow> jsval \<Rightarrow> error + job" where
  "createJob uuid feed =
    (let job = \<lparr> job_id = ''Job['' @ uuid @ '']'',
                  original = feed,
                  job_state = [],
                  req = \<lparr> retries = 0, data = JObj [], params = JObj [],
                          url = None, timeout = None \<rparr>,
                  res = [] \<rparr>
     in if types_get feed = ''string''
        then Inr (job\<lparr> req := (req job)\<lparr> url := Some feed \<rparr> \<rparr>)
        else if feed = JUndefined \<or> feed = JNull
        then Inl (TypeError ''Cannot read property 'url' of null or undefined'')
        else if \<not> truthy (property feed ''url'')
        then Inl (Error ''sandcrawler.scraper.url(s)/addUrl(s): no url provided.'')
        else
          (let r1 = (req job)\<lparr> url := Some (property feed ''url''),
                                data := js_or (property feed ''data'') (JObj []),
                                params := js_or (property feed ''params'') (JObj []) \<rparr>;
               r2 = (if truthy (property feed ''timeout'')
                     then r1\<lparr> timeout := Some (property feed ''timeout'') \<rparr>
                     else r1)
           in Inr (job\<lparr> req := r2 \<rparr>)))"

section \<open>Options and the shared defaults\<close>

text \<open>
  \<^verbatim>\<open>defaults\<close> is one object, created when the module is loaded (line 18), and
  \<^verbatim>\<open>this.options = defaults\<close> (line 38) stores a reference to it. Objects that are
  shared and mutated live in a store, addressed by references; the defaults object sits
  at a fixed reference, and its content (\<^verbatim>\<open>defaults.json\<close> is not among the sources) is
  whatever the store holds there.
\<close>

type_synonym object = "(string \<times> jsval) list"

type_synonym ref = nat

record world =
  store :: "ref \<Rightarrow> object"
  next_ref :: ref

definition defaults :: ref where
  "defaults = 0"

definition lookup :: "object \<Rightarrow> string \<Rightarrow> jsval" where
  "lookup ob k = property (JObj ob) k"

section \<open>The scraper\<close>

text \<open>
  A middleware or the engine is an asynchronous function: it is handed its arguments
  and a callback, may change the objects it was handed, and calls back once with an
  error value. It is modelled by what it does to its arguments and the value it calls
  back with; a falsy value means success (\<^verbatim>\<open>if (err)\<close>). A \<^verbatim>\<open>before\<close> middleware
  takes the callback alone, and is given by the value it calls back with.
\<close>

type_synonym res = "(string \<times> jsval) list"

record middlewares =
  before_mws :: "jsval list"
  after_mws :: "jsval list"
  beforeScraping_mws :: "(req \<Rightarrow> req \<times> jsval) list"
  afterScraping_mws :: "(req \<Rightarrow> res \<Rightarrow> (req \<times> res) \<times> jsval) list"

record lifecycle =
  fulfilled :: bool
  locked :: bool
  paused :: bool
  running :: bool

text \<open>
  The asynchronous calls one job goes through, each tagged with the stage it
  belongs to. \<open>Throws\<close> is a call that raises when it is made:
  \<^verbatim>\<open>this.engine.fetch\<close> with no engine mounted (\<^verbatim>\<open>this.engine = null\<close>, line 39).
\<close>

datatype stage = BeforeScraping_mw nat | Engine_fetch | AfterScraping_mw nat

datatype call =
    Call stage "job \<Rightarrow> job \<times> jsval"
  | Throws stage error

text \<open>
  What an observer of the scraper sees, in order: the events it emits, the calls of
  the completion callback that was given to \<^verbatim>\<open>run\<close>, and the calls made on behalf
  of a job, each with the job as it is at that moment.
\<close>

datatype event =
    E_job_added
  | E_job_fail jsval job
  | E_job_success job
  | E_scraper_start
  | E_scraper_fail jsval
  | E_scraper_success
  | E_scraper_end string
  | E_scraper_teardown

datatype action =
    Emit event
  | Callback jsval
  | Invoke stage job

text \<open>A worker of the queue: the job it holds, the call in flight, the calls to come.\<close>

record worker =
  w_job :: job
  w_stage :: stage
  w_call :: "job \<Rightarrow> job \<times> jsval"
  w_later :: "call list"

text \<open>
  Modelled from the spec: the queue object made by \<^verbatim>\<open>async.queue(worker, concurrency)\<close>.
  The \<^verbatim>\<open>async\<close> package is a dependency and its source is not among the sources. The
  spec (4.3) has the queue hold the pending jobs and a bounded number of active
  workers, start paused, and carry a registered drain callback. The package counts its
  running workers; the model keeps them in a list, so the count is its length.
  \<open>drain\<close> tells whether the callback of lines 181 to 186 is installed.
\<close>

record queue =
  tasks :: "job list"
  workers :: "worker list"
  concurrency :: nat
  q_paused :: bool
  drain :: bool

text \<open>
  The scraper object, lines 23 to 89. \<open>listeners\<close> are the observers registered on the
  event emitter, by event name. \<open>trace\<close> is the log of what has been observed so far,
  and \<open>uncaught\<close> an exception that nothing caught; neither is a field of the
  source. The script stack and the parser play no part in the pipeline and are left out.
\<close>

record scraper =
  scraper_id :: string
  name :: string
  options :: ref
  engine :: "(job \<Rightarrow> job \<times> jsval) option"
  scraper_type :: "string option"
  state :: lifecycle
  queue :: queue
  middlewares :: middlewares
  listeners :: "(string \<times> nat) list"
  trace :: "action list"
  uncaught :: "error option"

text \<open>
  Modelled from the spec: \<^verbatim>\<open>extend\<close> of \<^verbatim>\<open>helpers.js\<close>, which is not among the
  sources. The spec has \<^verbatim>\<open>configure(optionsPatch)\<close> merge the patch into the current
  options, the merge producing a new value: the result is a new object with the
  entries of the current options, overridden by those of the patch.
\<close>

definition extend :: "object \<Rightarrow> object \<Rightarrow> object" where
  "extend patch opts = AList.merge opts patch"

text \<open>
  The number the queue compares its worker count with. The bound is a JSON number;
  \<^verbatim>\<open>true\<close> compares as 1, and a value that is not a number never lets a worker start.
\<close>

fun bound :: "jsval \<Rightarrow> nat" where
  "bound (JNum n) = nat n"
| "bound (JBool b) = (if b then 1 else 0)"
| "bound v = 0"

text \<open>
  The constructor, lines 23 to 89: \<^verbatim>\<open>name || this.id.substr(0, 16) + ']'\<close>, the
  options set to the defaults reference, the queue built with
  \<^verbatim>\<open>this.options.maxConcurrency || 1\<close> and paused at once.
\<close>

definition Scraper :: "string \<Rightarrow> string \<Rightarrow> world \<Rightarrow> scraper" where
  "Scraper uuid nm w =
    (let sid = ''Scraper['' @ uuid @ '']''
     in \<lparr> scraper_id = sid,
          name = (if nm \<noteq> [] then nm else take 16 sid @ '']''),
          options = defaults,
          engine = None,
          scraper_type = None,
          state = \<lparr> fulfilled = False, locked = False, paused = False, running = False \<rparr>,
          queue = \<lparr> tasks = [], workers = [],
                    concurrency = bound (js_or (lookup (store w defaults) ''maxConcurrency'') (JNum 1)),
                    q_paused = True,
                    drain = False \<rparr>,
          middlewares = \<lparr> before_mws = [], after_mws = [],
                          beforeScraping_mws = [], afterScraping_mws = [] \<rparr>,
          listeners = [],
          trace = [],
          uncaught = None \<rparr>)"

text \<open>\<^verbatim>\<open>config(o)\<close>, lines 326 to 333.\<close>

definition Scraper_config :: "jsval \<Rightarrow> scraper \<Rightarrow> world \<Rightarrow> error + scraper \<times> world" where
  "Scraper_config ob s w =
    (case ob of
       JObj patch \<Rightarrow>
         Inr (s\<lparr> options := next_ref w \<rparr>,
              w\<lparr> store := (store w)(next_ref w := extend patch (store w (options s))),
                 next_ref := Suc (next_ref w) \<rparr>)
     | _ \<Rightarrow> Inl (Error ''sandcrawler.scraper.config: wrong argument.''))"

text \<open>\<^verbatim>\<open>timeout(t)\<close>, lines 336 to 344: the object that \<^verbatim>\<open>this.options\<close> refers to is
  changed in place.\<close>

definition Scraper_timeout :: "jsval \<Rightarrow> scraper \<Rightarrow> world \<Rightarrow> error + world" where
  "Scraper_timeout t s w =
    (if types_get t \<noteq> ''number''
     then Inl (Error ''sandcrawler.scraper.timeout: wrong argument'')
     else Inr (w\<lparr> store := (store w)(options s := AList.update ''timeout'' t (store w (options s))) \<rparr>))"

section \<open>The pipeline of one job\<close>

text \<open>
  \<^verbatim>\<open>beforeScraping\<close>, \<^verbatim>\<open>scrape\<close> and \<^verbatim>\<open>afterScraping\<close>, lines 136 to 156, as the
  calls each of them makes: one per registered middleware, in the order of
  registration, and one for the engine. The middlewares receive \<^verbatim>\<open>job.req\<close> (and
  \<^verbatim>\<open>job.res\<close>), the engine the job.
\<close>

definition beforeScraping :: "scraper \<Rightarrow> call list" where
  "beforeScraping s =
     map (\<lambda>(i, f). Call (BeforeScraping_mw i)
                      (\<lambda>j. case f (req j) of (r, e) \<Rightarrow> (j\<lparr> req := r \<rparr>, e)))
         (enumerate 0 (beforeScraping_mws (middlewares s)))"

definition scrape :: "scraper \<Rightarrow> call list" where
  "scrape s =
     (case engine s of
        None \<Rightarrow> [Throws Engine_fetch (TypeError ''Cannot read property 'fetch' of null'')]
      | Some fetch \<Rightarrow> [Call Engine_fetch fetch])"

definition afterScraping :: "scraper \<Rightarrow> call list" where
  "afterScraping s =
     map (\<lambda>(i, f). Call (AfterScraping_mw i)
                      (\<lambda>j. case f (req j) (res j) of ((r, rs), e) \<Rightarrow> (j\<lparr> req := r, res := rs \<rparr>, e)))
         (enumerate 0 (afterScraping_mws (middlewares s)))"

text \<open>
  The queue's worker, lines 53 to 75, runs the three in series, and two of them run
  their middlewares in series again. A series that ends without an error lets the
  enclosing series go on with its next function, and one that ends with an error ends
  the enclosing series with it. So the calls made for a job are those of the three
  lists in a row, up to the first error.
\<close>

definition pipeline :: "scraper \<Rightarrow> call list" where
  "pipeline s = beforeScraping s @ scrape s @ afterScraping s"

text \<open>\<^verbatim>\<open>job.res.error = err\<close>, line 63.\<close>

definition set_error :: "jsval \<Rightarrow> job \<Rightarrow> job" where
  "set_error e j = j\<lparr> res := AList.update ''error'' e (res j) \<rparr>"

text \<open>
  Modelled from the spec: \<^verbatim>\<open>async.applyEachSeries\<close>, of the \<^verbatim>\<open>async\<close> package,
  whose source is not among the sources. The spec (4.2) has a list of stages run
  against the same arguments like this: invoke stage 1; on success invoke stage 2 with
  the same arguments; continue in series; on the first error, abort immediately and
  propagate that error, so that later stages in the list never run.

  \<open>queue_worker cs j\<close> is what the queue's worker function (lines 53 to 75) does for
  the job \<open>j\<close>, taken alone, from the moment it is about to make the calls \<open>cs\<close>:
  each call is made with the job as the calls before left it, and the final callback
  (lines 60 to 75) stores the error and emits \<^verbatim>\<open>job:fail\<close> with the error and the
  job, or emits \<^verbatim>\<open>job:success\<close> with the job. A call that raises ends everything.
\<close>

fun queue_worker :: "call list \<Rightarrow> job \<Rightarrow> action list" where
  "queue_worker [] j = [Emit (E_job_success j)]"
| "queue_worker (Call st f # cs) j =
     Invoke st j #
       (case f j of (j', e) \<Rightarrow>
          if truthy e then [Emit (E_job_fail e (set_error e j'))]
          else queue_worker cs j')"
| "queue_worker (Throws st err # cs) j = []"

text \<open>The same for a worker whose call is in flight: what is still to be observed.\<close>

definition remaining :: "worker \<Rightarrow> action list" where
  "remaining w =
     (case w_call w (w_job w) of (j', e) \<Rightarrow>
        if truthy e then [Emit (E_job_fail e (set_error e j'))]
        else queue_worker (w_later w) j')"

section \<open>The lifecycle\<close>

definition emit :: "event \<Rightarrow> scraper \<Rightarrow> scraper" where
  "emit ev s = s\<lparr> trace := trace s @ [Emit ev] \<rparr>"

text \<open>Calling the function that was given to \<^verbatim>\<open>run\<close>.\<close>

definition callback :: "jsval \<Rightarrow> scraper \<Rightarrow> scraper" where
  "callback err s = s\<lparr> trace := trace s @ [Callback err] \<rparr>"

text \<open>
  Modelled from the spec: \<^verbatim>\<open>queue.kill()\<close> of the \<^verbatim>\<open>async\<close> package. The spec
  (4.3) has it drop the pending jobs and leave the calls in flight alone; the package
  also removes the drain callback.
\<close>

definition kill :: "queue \<Rightarrow> queue" where
  "kill q = q\<lparr> drain := False, tasks := [] \<rparr>"

text \<open>\<^verbatim>\<open>teardown\<close>, lines 221 to 231.\<close>

definition Scraper_teardown :: "scraper \<Rightarrow> scraper" where
  "Scraper_teardown s =
     (let s1 = emit E_scraper_teardown s
      in s1\<lparr> queue := kill (queue s1), listeners := [] \<rparr>)"

text \<open>\<^verbatim>\<open>exit(status)\<close>, lines 206 to 218.\<close>

definition Scraper_exit :: "string \<Rightarrow> scraper \<Rightarrow> scraper" where
  "Scraper_exit status s =
     (let s1 = emit (E_scraper_end status) s
      in Scraper_teardown (s1\<lparr> state := (state s1)\<lparr> running := False, fulfilled := True \<rparr> \<rparr>))"

text \<open>\<^verbatim>\<open>fail(err)\<close> and \<^verbatim>\<open>succeed()\<close>, lines 194 to 203.\<close>

definition Scraper_fail :: "jsval \<Rightarrow> scraper \<Rightarrow> scraper" where
  "Scraper_fail err s = Scraper_exit ''fail'' (emit (E_scraper_fail err) s)"

definition Scraper_succeed :: "scraper \<Rightarrow> scraper" where
  "Scraper_succeed s = Scraper_exit ''success'' (emit E_scraper_success s)"

section \<open>The queue at work\<close>

text \<open>
  Modelled from the spec: how the queue of the \<^verbatim>\<open>async\<close> package hands tasks to its
  workers. The spec (4.3) has each worker, when free, pull the next pending job, with
  no worker active while the queue is paused. So while the queue is not paused, a
  worker is free and a task waits, the next task is taken and the worker function is
  called on it, which makes the first call of the pipeline. The pipeline is never
  empty (\<open>scrape\<close> is one call), and it is the same for every job, so the tasks that
  fit into the free workers start alike.
\<close>

definition process :: "scraper \<Rightarrow> scraper" where
  "process s =
     (let q = queue s;
          n = min (concurrency q - length (workers q)) (length (tasks q))
      in if q_paused q \<or> uncaught s \<noteq> None \<or> n = 0 then s
         else case pipeline s of
                [] \<Rightarrow> s
              | Call st f # cs \<Rightarrow>
                  s\<lparr> queue := q\<lparr> workers := workers q @
                                    map (\<lambda>j. \<lparr> w_job = j, w_stage = st, w_call = f, w_later = cs \<rparr>)
                                        (take n (tasks q)),
                                  tasks := drop n (tasks q) \<rparr>,
                     trace := trace s @ map (Invoke st) (take n (tasks q)) \<rparr>
              | Throws st err # cs \<Rightarrow> s\<lparr> uncaught := Some err \<rparr>)"

text \<open>
  Modelled from the spec: \<^verbatim>\<open>queue.push(job)\<close>, \<^verbatim>\<open>queue.pause()\<close> and
  \<^verbatim>\<open>queue.resume()\<close> of the \<^verbatim>\<open>async\<close> package. Pushing is always legal and
  appends to the pending jobs; resuming lets the workers begin pulling jobs, and does
  nothing else: the package does not look at the drain callback when it resumes.
\<close>

definition push :: "job \<Rightarrow> scraper \<Rightarrow> scraper" where
  "push j s = process (s\<lparr> queue := (queue s)\<lparr> tasks := tasks (queue s) @ [j] \<rparr> \<rparr>)"

definition pause :: "scraper \<Rightarrow> scraper" where
  "pause s = s\<lparr> queue := (queue s)\<lparr> q_paused := True \<rparr> \<rparr>"

definition resume :: "scraper \<Rightarrow> scraper" where
  "resume s =
     (if q_paused (queue s)
      then process (s\<lparr> queue := (queue s)\<lparr> q_paused := False \<rparr> \<rparr>)
      else s)"

text \<open>
  Modelled from the spec: when the queue of the \<^verbatim>\<open>async\<close> package calls its drain
  callback. The spec (4.3) gives the drain condition, no pending jobs and no active
  workers, and has it trigger the registered callback. The package tests the condition
  at one moment only, when a task has returned from its worker (its documentation:
  drain is "a callback that is called when the last item from the queue has returned
  from the worker"). The two agree as soon as one task has gone through the queue; they
  differ for a queue that is resumed with nothing in it, where the condition of the
  spec holds and the package calls nothing. The model follows the package, since that
  is what \<^verbatim>\<open>run\<close> calls. The callback itself is the one of lines 181 to 186.
\<close>

definition settle :: "scraper \<Rightarrow> scraper" where
  "settle s =
     (if drain (queue s) \<and> tasks (queue s) = [] \<and> workers (queue s) = []
      then Scraper_succeed (callback JNull s)
      else s)"

text \<open>
  The end of a job: the worker's callback, lines 60 to 75, with the error of the
  series if there is one, then \<^verbatim>\<open>callback(err, job)\<close> hands over to the queue: the
  worker \<open>i\<close> is free again, the drain callback is called if this was the last task,
  and the next task is taken.
\<close>

definition finish :: "nat \<Rightarrow> job \<Rightarrow> jsval option \<Rightarrow> scraper \<Rightarrow> scraper" where
  "finish i j err s =
     (let s1 = (case err of
                  Some e \<Rightarrow> emit (E_job_fail e (set_error e j)) s
                | None \<Rightarrow> emit (E_job_success j) s);
          q = queue s1;
          s2 = s1\<lparr> queue := q\<lparr> workers := take i (workers q) @ drop (Suc i) (workers q) \<rparr> \<rparr>
      in process (settle s2))"

text \<open>
  One turn of the event loop: the call in flight of one busy worker calls back. The
  number \<open>k\<close> picks the worker, so a list of numbers is a schedule, and every order in
  which the calls in flight may call back is the run of some schedule. With no busy
  worker, or after an uncaught exception, nothing is left to happen.
\<close>

definition step :: "nat \<Rightarrow> scraper \<Rightarrow> scraper" where
  "step k s =
     (let q = queue s; ws = workers q
      in if ws = [] \<or> uncaught s \<noteq> None then s
         else
           (let i = k mod length ws; w = ws ! i
            in case w_call w (w_job w) of (j', e) \<Rightarrow>
                 if truthy e then finish i j' (Some e) s
                 else case w_later w of
                        [] \<Rightarrow> finish i j' None s
                      | Call st f # cs \<Rightarrow>
                          s\<lparr> queue := q\<lparr> workers :=
                                 list_update ws i
                                   \<lparr> w_job = j', w_stage = st, w_call = f, w_later = cs \<rparr> \<rparr>,
                             trace := trace s @ [Invoke st j'] \<rparr>
                      | Throws st err # cs \<Rightarrow> s\<lparr> uncaught := Some err \<rparr>))"

definition exec :: "nat list \<Rightarrow> scraper \<Rightarrow> scraper" where
  "exec sched s = fold step sched s"

text \<open>
  Modelled from the spec: \<^verbatim>\<open>async.series(tasks, callback)\<close> of the \<^verbatim>\<open>async\<close>
  package, over the \<^verbatim>\<open>before\<close> middlewares. The spec (4.4) has the series run once,
  in order, short-circuiting on error: the first error ends the series and is handed to
  the callback. While the series runs the queue is paused and nothing else is in
  flight, so it is taken in one piece.
\<close>

fun series :: "jsval list \<Rightarrow> jsval option" where
  "series [] = None"
| "series (e # es) = (if truthy e then Some e else series es)"

text \<open>\<^verbatim>\<open>run(callback)\<close>, lines 163 to 191.\<close>

definition Scraper_run :: "scraper \<Rightarrow> scraper" where
  "Scraper_run s =
     (let s1 = emit E_scraper_start s
      in case series (before_mws (middlewares s1)) of
           Some err \<Rightarrow> Scraper_fail err (callback err s1)
         | None \<Rightarrow> resume (s1\<lparr> queue := (queue s1)\<lparr> drain := True \<rparr> \<rparr>))"

section \<open>Pushing feeds\<close>

text \<open>
  \<^verbatim>\<open>url(feed)\<close> and \<^verbatim>\<open>addUrl(feed)\<close>, lines 234 to 261: each item becomes a job
  and is pushed. \<open>gen\<close> gives the identifier drawn for the item at each position. An
  item that makes \<open>createJob\<close> raise ends the loop; the jobs pushed before it stay
  pushed, so the scraper comes back together with the error, if any.
\<close>

fun push_all :: "(nat \<times> jsval) list \<Rightarrow> (nat \<Rightarrow> string) \<Rightarrow> scraper \<Rightarrow> scraper \<times> error option" where
  "push_all [] gen s = (s, None)"
| "push_all ((i, item) # rest) gen s =
     (case createJob (gen i) item of
        Inl err \<Rightarrow> (s, Some err)
      | Inr j \<Rightarrow> push_all rest gen (push j s))"

definition Scraper_url :: "(nat \<Rightarrow> string) \<Rightarrow> jsval \<Rightarrow> scraper \<Rightarrow> scraper \<times> error option" where
  "Scraper_url gen feed s =
     (if types_get feed \<notin> {''string'', ''array'', ''object''}
      then (s, Some (Error ''sandcrawler.scraper.url(s): wrong argument.''))
      else push_all (enumerate 0 (case feed of JArr items \<Rightarrow> items | _ \<Rightarrow> [feed])) gen s)"

definition Scraper_addUrl :: "(nat \<Rightarrow> string) \<Rightarrow> jsval \<Rightarrow> scraper \<Rightarrow> scraper \<times> error option" where
  "Scraper_addUrl gen feed s =
     (case Scraper_url gen feed s of
        (s', None) \<Rightarrow> (emit E_job_added s', None)
      | (s', Some err) \<Rightarrow> (s', Some err))"

text \<open>
  Mounting an engine: \<^verbatim>\<open>engine\<close> and \<^verbatim>\<open>type\<close> are set from outside, as
  \<^verbatim>\<open>sandcrawler.staticSpider\<close> of the public interface does.
\<close>

definition mount :: "(job \<Rightarrow> job \<times> jsval) \<Rightarrow> scraper \<Rightarrow> scraper" where
  "mount fetch s = s\<lparr> engine := Some fetch, scraper_type := Some ''static'' \<rparr>"

text \<open>
  \<^verbatim>\<open>result(fn)\<close>, lines 309 to 323: two listeners are registered. The function is
  known by a number.
\<close>

definition Scraper_result :: "nat \<Rightarrow> scraper \<Rightarrow> scraper" where
  "Scraper_result fn s = s\<lparr> listeners := listeners s @ [(''job:fail'', fn), (''job:success'', fn)] \<rparr>"

section \<open>Measures and invariants of a run\<close>

text \<open>The calls a job still has to make, over the busy workers and the waiting tasks.\<close>

definition work :: "scraper \<Rightarrow> nat" where
  "work s = (\<Sum>w\<leftarrow>workers (queue s). Suc (length (w_later w)))
            + length (tasks (queue s)) * length (pipeline s)"

fun is_job_action :: "action \<Rightarrow> bool" where
  "is_job_action (Invoke st j) = True"
| "is_job_action (Emit (E_job_fail e j)) = True"
| "is_job_action (Emit (E_job_success j)) = True"
| "is_job_action a = False"

fun is_callback :: "action \<Rightarrow> bool" where
  "is_callback (Callback e) = True"
| "is_callback a = False"

fun is_call :: "call \<Rightarrow> bool" where
  "is_call (Call st f) = True"
| "is_call (Throws st e) = False"

fun stage_of :: "call \<Rightarrow> stage" where
  "stage_of (Call st f) = st"
| "stage_of (Throws st e) = st"

text \<open>The three stages in the order of line 57 to 59.\<close>

fun phase :: "stage \<Rightarrow> nat" where
  "phase (BeforeScraping_mw i) = 0"
| "phase Engine_fetch = 1"
| "phase (AfterScraping_mw i) = 2"

definition in_fetch :: "worker \<Rightarrow> bool" where
  "in_fetch w = (w_stage w = Engine_fetch)"

text \<open>A scraper that has been set up and not run yet, with an empty log.\<close>

definition idle :: "scraper \<Rightarrow> bool" where
  "idle s = (q_paused (queue s) \<and> workers (queue s) = [] \<and> \<not> drain (queue s)
             \<and> uncaught s = None \<and> trace s = [])"

text \<open>
  Every busy worker is somewhere in the pipeline: the call in flight and the calls to
  come are the rest of the pipeline from some point on.
\<close>

definition in_order :: "scraper \<Rightarrow> bool" where
  "in_order s = (\<forall>w \<in> set (workers (queue s)).
                   suffix (Call (w_stage w) (w_call w) # w_later w) (pipeline s))"

text \<open>
  A queue that has been resumed, with an engine mounted and a positive bound: no
  exception, no more workers than the bound, and no task waiting while a worker is free.
\<close>

definition healthy :: "scraper \<Rightarrow> bool" where
  "healthy s = (uncaught s = None \<and> engine s \<noteq> None \<and> in_order s
                \<and> \<not> q_paused (queue s) \<and> 0 < concurrency (queue s)
                \<and> length (workers (queue s)) \<le> concurrency (queue s)
                \<and> (tasks (queue s) \<noteq> [] \<longrightarrow> length (workers (queue s)) = concurrency (queue s)))"

text \<open>
  The job actions of a run, seen or still to come: those in the log, those the busy
  workers will still give rise to, and those of the waiting tasks.
\<close>

definition expected :: "scraper \<Rightarrow> action multiset" where
  "expected s = mset (filter is_job_action (trace s))
                + (\<Sum>w\<leftarrow>workers (queue s). mset (remaining w))
                + (\<Sum>j\<leftarrow>tasks (queue s). mset (queue_worker (pipeline s) j))"

text \<open>What the drain callback of lines 181 to 186 and \<^verbatim>\<open>succeed\<close> put in the log.\<close>

definition closing_actions :: "action list" where
  "closing_actions = [Callback JNull, Emit E_scraper_success,
                      Emit (E_scraper_end ''success''), Emit E_scraper_teardown]"

text \<open>
  The two phases of a run whose \<^verbatim>\<open>before\<close> middlewares succeeded and that has
  jobs: \<open>opened\<close> while some worker is busy, with \<^verbatim>\<open>scraper:start\<close> the only
  lifecycle action so far; \<open>closed\<close> once the queue has drained, with the closing
  actions at the end of the log and after every job action.
\<close>

definition opened :: "scraper \<Rightarrow> bool" where
  "opened s = (healthy s \<and> drain (queue s) \<and> workers (queue s) \<noteq> []
               \<and> filter (\<lambda>a. \<not> is_job_action a) (trace s) = [Emit E_scraper_start])"

definition closed :: "scraper \<Rightarrow> bool" where
  "closed s = (workers (queue s) = [] \<and> tasks (queue s) = [] \<and> \<not> drain (queue s)
               \<and> listeners s = [] \<and> fulfilled (state s) \<and> \<not> running (state s)
               \<and> uncaught s = None
               \<and> filter (\<lambda>a. \<not> is_job_action a) (take (length (trace s) - 4) (trace s))
                     = [Emit E_scraper_start]
               \<and> drop (length (trace s) - 4) (trace s) = closing_actions)"

text \<open>The stages of the calls in a log, in the order they were made.\<close>

fun invoked :: "action list \<Rightarrow> stage list" where
  "invoked [] = []"
| "invoked (Invoke st j # as) = st # invoked as"
| "invoked (a # as) = invoked as"

text \<open>
  The job an action is about, by its identifier, and the part of a log that is about
  one job. A call keeps the identifier when the job it hands back has the identifier of
  the job it was given: the middlewares only see \<^verbatim>\<open>job.req\<close> and \<^verbatim>\<open>job.res\<close>, so
  this is a condition on the engine alone.
\<close>

fun subject :: "action \<Rightarrow> string option" where
  "subject (Invoke st j) = Some (job_id j)"
| "subject (Emit (E_job_fail e j)) = Some (job_id j)"
| "subject (Emit (E_job_success j)) = Some (job_id j)"
| "subject a = None"

definition about :: "string \<Rightarrow> action list \<Rightarrow> action list" where
  "about x as = filter (\<lambda>a. subject a = Some x) as"

definition keeps_id :: "(job \<Rightarrow> job \<times> jsval) \<Rightarrow> bool" where
  "keeps_id f = (\<forall>j. job_id (fst (f j)) = job_id j)"

fun keeps :: "call \<Rightarrow> bool" where
  "keeps (Call st f) = keeps_id f"
| "keeps (Throws st err) = True"

text \<open>
  What is observed about the job \<open>x\<close> in the end: what the log has about it, then what
  the worker that holds it will still give rise to, or its whole pipeline while it waits.
\<close>

definition story :: "string \<Rightarrow> scraper \<Rightarrow> action list" where
  "story x s = about x (trace s)
               @ concat (map (\<lambda>w. about x (remaining w)) (workers (queue s)))
               @ concat (map (\<lambda>j. about x (queue_worker (pipeline s) j)) (tasks (queue s)))"

text \<open>
  The workers follow the pipeline, every call of it keeps the identifier, and no two
  jobs of the queue have the same identifier.
\<close>

definition tidy :: "scraper \<Rightarrow> bool" where
  "tidy s = (in_order s \<and> list_all keeps (pipeline s)
             \<and> distinct (map (job_id \<circ> w_job) (workers (queue s)) @ map job_id (tasks (queue s))))"

section \<open>A small scraper\<close>

text \<open>
  The scenario of the spec's testable properties, used to instantiate the theorems: the
  defaults set \<^verbatim>\<open>maxConcurrency\<close> to 2, two urls are pushed, and the engine fails
  for \<^verbatim>\<open>http://b\<close> only; \<open>demo_job\<close> and \<open>demo_job_b\<close> are the two jobs this
  makes. \<open>demo_empty\<close> is the same scraper with no url pushed,
  \<open>demo_guarded\<close> has two \<^verbatim>\<open>beforeScraping\<close> middlewares, the second of which
  fails, and \<open>demo_denied\<close> has a result listener and three \<^verbatim>\<open>before\<close>
  middlewares, the second of which fails.
\<close>

definition demo_world :: world where
  "demo_world = \<lparr> store = (\<lambda>r. if r = defaults then [(''maxConcurrency'', JNum 2)] else []),
                   next_ref = 1 \<rparr>"

definition demo_fetch :: "job \<Rightarrow> job \<times> jsval" where
  "demo_fetch j = (if url (req j) = Some (JStr ''http://b'') then (j, JStr ''unreachable'')
                   else (j\<lparr> res := [(''status'', JNum 200)] \<rparr>, JNull))"

definition demo :: scraper where
  "demo = fst (Scraper_url (\<lambda>i. if i = 0 then ''a'' else ''b'')
                 (JArr [JStr ''http://a'', JStr ''http://b''])
                 (mount demo_fetch (Scraper ''s'' ''demo'' demo_world)))"

definition demo_empty :: scraper where
  "demo_empty = mount demo_fetch (Scraper ''s'' ''demo'' demo_world)"

definition demo_denied :: scraper where
  "demo_denied = (Scraper_result 7 demo)\<lparr> middlewares := (middlewares demo)\<lparr> before_mws :=
       [JNull, JStr ''denied'', JStr ''late''] \<rparr> \<rparr>"

definition demo_job :: job where
  "demo_job = \<lparr> job_id = ''Job[a]'', original = JStr ''http://a'', job_state = [],
                 req = \<lparr> retries = 0, data = JObj [], params = JObj [],
                         url = Some (JStr ''http://a''), timeout = None \<rparr>,
                 res = [] \<rparr>"

definition demo_job_b :: job where
  "demo_job_b = \<lparr> job_id = ''Job[b]'', original = JStr ''http://b'', job_state = [],
                   req = \<lparr> retries = 0, data = JObj [], params = JObj [],
                           url = Some (JStr ''http://b''), timeout = None \<rparr>,
                   res = [] \<rparr>"

definition demo_guarded :: scraper where
  "demo_guarded = demo\<lparr> middlewares := (middlewares demo)\<lparr> beforeScraping_mws :=
       [\<lambda>r. (r\<lparr> params := JObj [(''seen'', JBool True)] \<rparr>, JNull),
        \<lambda>r. (r, JStr ''blocked'')] \<rparr> \<rparr>"

section \<open>Helper lemmas: the pipeline\<close>

lemma pipeline_cong:
  "engine s' = engine s \<Longrightarrow> middlewares s' = middlewares s \<Longrightarrow> pipeline s' = pipeline s"
  by (simp add: pipeline_def beforeScraping_def scrape_def afterScraping_def)

lemma pipeline_upd [simp]:
  "pipeline (s\<lparr> queue := q \<rparr>) = pipeline s"
  "pipeline (s\<lparr> trace := t \<rparr>) = pipeline s"
  "pipeline (s\<lparr> state := l \<rparr>) = pipeline s"
  "pipeline (s\<lparr> listeners := ls \<rparr>) = pipeline s"
  "pipeline (s\<lparr> uncaught := u \<rparr>) = pipeline s"
  by (simp_all add: pipeline_def beforeScraping_def scrape_def afterScraping_def)

lemma pipeline_mounted:
  "engine s = Some fetch \<Longrightarrow>
     pipeline s = beforeScraping s @ Call Engine_fetch fetch # afterScraping s"
  by (simp add: pipeline_def scrape_def)

lemma is_call_before: "list_all is_call (beforeScraping s)"
  by (simp add: beforeScraping_def list_all_iff split_def)

lemma is_call_after: "list_all is_call (afterScraping s)"
  by (simp add: afterScraping_def list_all_iff split_def)

lemma pipeline_calls: "engine s \<noteq> None \<Longrightarrow> list_all is_call (pipeline s)"
  by (auto simp: pipeline_mounted is_call_before is_call_after)

lemma pipeline_nonempty: "pipeline s \<noteq> []"
  by (simp add: pipeline_def scrape_def split: option.splits)

lemma pipeline_head:
  assumes "engine s \<noteq> None"
  obtains st f cs where "pipeline s = Call st f # cs"
proof -
  from pipeline_nonempty obtain c cs where p: "pipeline s = c # cs"
    by (cases "pipeline s") auto
  with pipeline_calls [OF assms] have "is_call c" by simp
  then obtain st f where "c = Call st f" by (cases c) auto
  with p that show thesis by simp
qed

lemma phase_before: "map (phase \<circ> stage_of) (beforeScraping s) = replicate (length (beforeScraping_mws (middlewares s))) 0"
  by (simp add: beforeScraping_def map_replicate_const[symmetric] split_def comp_def)
     (simp add: map_replicate_const)

section \<open>Helper lemmas: what each operation leaves alone\<close>

lemma phase_after: "map (phase \<circ> stage_of) (afterScraping s) = replicate (length (afterScraping_mws (middlewares s))) 2"
  by (simp add: afterScraping_def split_def comp_def map_replicate_const)

lemma phase_scrape: "map (phase \<circ> stage_of) (scrape s) = [1]"
  by (simp add: scrape_def split: option.splits)

lemma pipeline_sorted: "sorted (map (phase \<circ> stage_of) (pipeline s))"
  by (simp add: pipeline_def phase_before phase_after phase_scrape sorted_append)

lemma teardown_sel [simp]:
  "trace (Scraper_teardown s) = trace s @ [Emit E_scraper_teardown]"
  "queue (Scraper_teardown s) = kill (queue s)"
  "listeners (Scraper_teardown s) = []"
  "state (Scraper_teardown s) = state s"
  "engine (Scraper_teardown s) = engine s"
  "middlewares (Scraper_teardown s) = middlewares s"
  "uncaught (Scraper_teardown s) = uncaught s"
  "options (Scraper_teardown s) = options s"
  by (simp_all add: Scraper_teardown_def Let_def emit_def)

lemma exit_sel [simp]:
  "trace (Scraper_exit st s) = trace s @ [Emit (E_scraper_end st), Emit E_scraper_teardown]"
  "queue (Scraper_exit st s) = kill (queue s)"
  "listeners (Scraper_exit st s) = []"
  "state (Scraper_exit st s) = (state s)\<lparr> running := False, fulfilled := True \<rparr>"
  "engine (Scraper_exit st s) = engine s"
  "middlewares (Scraper_exit st s) = middlewares s"
  "uncaught (Scraper_exit st s) = uncaught s"
  "options (Scraper_exit st s) = options s"
  by (simp_all add: Scraper_exit_def Let_def emit_def)

lemma succeed_sel [simp]:
  "trace (Scraper_succeed s) =
     trace s @ [Emit E_scraper_success, Emit (E_scraper_end ''success''), Emit E_scraper_teardown]"
  "queue (Scraper_succeed s) = kill (queue s)"
  "listeners (Scraper_succeed s) = []"
  "state (Scraper_succeed s) = (state s)\<lparr> running := False, fulfilled := True \<rparr>"
  "engine (Scraper_succeed s) = engine s"
  "middlewares (Scraper_succeed s) = middlewares s"
  "uncaught (Scraper_succeed s) = uncaught s"
  "options (Scraper_succeed s) = options s"
  by (simp_all add: Scraper_succeed_def emit_def)

lemma fail_sel [simp]:
  "trace (Scraper_fail e s) =
     trace s @ [Emit (E_scraper_fail e), Emit (E_scraper_end ''fail''), Emit E_scraper_teardown]"
  "queue (Scraper_fail e s) = kill (queue s)"
  "listeners (Scraper_fail e s) = []"
  "state (Scraper_fail e s) = (state s)\<lparr> running := False, fulfilled := True \<rparr>"
  "engine (Scraper_fail e s) = engine s"
  "middlewares (Scraper_fail e s) = middlewares s"
  "uncaught (Scraper_fail e s) = uncaught s"
  "options (Scraper_fail e s) = options s"
  by (simp_all add: Scraper_fail_def emit_def)

lemma kill_sel [simp]:
  "tasks (kill q) = []" "workers (kill q) = workers q" "concurrency (kill q) = concurrency q"
  "q_paused (kill q) = q_paused q" "drain (kill q) = False"
  by (simp_all add: kill_def)

lemma pipeline_lifecycle [simp]:
  "pipeline (Scraper_succeed s) = pipeline s"
  "pipeline (Scraper_fail e s) = pipeline s"
  "pipeline (callback e s) = pipeline s"
  "pipeline (emit ev s) = pipeline s"
  by (simp_all add: pipeline_def beforeScraping_def scrape_def afterScraping_def callback_def emit_def)

lemma settle_frame [simp]:
  "concurrency (queue (settle s)) = concurrency (queue s)"
  "workers (queue (settle s)) = workers (queue s)"
  "tasks (queue (settle s)) = tasks (queue s)"
  "q_paused (queue (settle s)) = q_paused (queue s)"
  "engine (settle s) = engine s"
  "middlewares (settle s) = middlewares s"
  "uncaught (settle s) = uncaught s"
  "options (settle s) = options s"
  by (simp_all add: settle_def callback_def)

lemma settle_pipeline [simp]: "pipeline (settle s) = pipeline s"
  by (rule pipeline_cong) simp_all

lemma process_frame [simp]:
  "concurrency (queue (process s)) = concurrency (queue s)"
  "q_paused (queue (process s)) = q_paused (queue s)"
  "drain (queue (process s)) = drain (queue s)"
  "engine (process s) = engine s"
  "middlewares (process s) = middlewares s"
  "options (process s) = options s"
  "listeners (process s) = listeners s"
  "state (process s) = state s"
  by (simp_all add: process_def Let_def split: list.splits call.splits)

lemma process_pipeline [simp]: "pipeline (process s) = pipeline s"
  by (rule pipeline_cong) simp_all

lemma process_bound:
  "length (workers (queue s)) \<le> concurrency (queue s) \<Longrightarrow>
     length (workers (queue (process s))) \<le> concurrency (queue s)"
  by (auto simp: process_def Let_def split: list.splits call.splits)


lemma finish_frame [simp]:
  "concurrency (queue (finish i j err s)) = concurrency (queue s)"
  "q_paused (queue (finish i j err s)) = q_paused (queue s)"
  "engine (finish i j err s) = engine s"
  "middlewares (finish i j err s) = middlewares s"
  "options (finish i j err s) = options s"
  by (simp_all add: finish_def Let_def emit_def split: option.splits)

lemma finish_pipeline [simp]: "pipeline (finish i j err s) = pipeline s"
  by (rule pipeline_cong) simp_all

lemma step_frame [simp]:
  "concurrency (queue (step k s)) = concurrency (queue s)"
  "q_paused (queue (step k s)) = q_paused (queue s)"
  "engine (step k s) = engine s"
  "middlewares (step k s) = middlewares s"
  "options (step k s) = options s"
  by (simp_all add: step_def Let_def split: prod.splits list.splits call.splits)

lemma step_pipeline [simp]: "pipeline (step k s) = pipeline s"
  by (rule pipeline_cong) simp_all

lemma exec_Nil [simp]: "exec [] s = s"
  by (simp add: exec_def)

lemma exec_Cons [simp]: "exec (k # sched) s = exec sched (step k s)"
  by (simp add: exec_def)

lemma exec_append: "exec (xs @ ys) s = exec ys (exec xs s)"
  by (simp add: exec_def)

lemma exec_frame [simp]:
  "concurrency (queue (exec sched s)) = concurrency (queue s)"
  "q_paused (queue (exec sched s)) = q_paused (queue s)"
  "engine (exec sched s) = engine s"
  "middlewares (exec sched s) = middlewares s"
  "options (exec sched s) = options s"
  by (induction sched arbitrary: s; simp)+

lemma exec_pipeline [simp]: "pipeline (exec sched s) = pipeline s"
  by (rule pipeline_cong) simp_all

lemma finish_bound:
  assumes "length (workers (queue s)) \<le> concurrency (queue s)"
  shows "length (workers (queue (finish i j err s))) \<le> concurrency (queue s)"
proof -
  let ?s1 = "case err of Some e \<Rightarrow> emit (E_job_fail e (set_error e j)) s
                | None \<Rightarrow> emit (E_job_success j) s"
  let ?s2 = "settle (?s1\<lparr> queue := (queue ?s1)\<lparr> workers := take i (workers (queue ?s1)) @ drop (Suc i) (workers (queue ?s1)) \<rparr> \<rparr>)"
  have "length (workers (queue ?s2)) \<le> concurrency (queue ?s2)"
    using assms by (auto simp: emit_def split: option.splits)
  from process_bound [OF this] show ?thesis
    by (simp add: finish_def Let_def emit_def split: option.splits)
qed

lemma step_bound:
  "length (workers (queue s)) \<le> concurrency (queue s) \<Longrightarrow>
     length (workers (queue (step k s))) \<le> concurrency (queue s)"
  by (auto simp: step_def Let_def finish_bound split: prod.splits list.splits call.splits)

lemma exec_bound:
  "length (workers (queue s)) \<le> concurrency (queue s) \<Longrightarrow>
     length (workers (queue (exec sched s))) \<le> concurrency (queue s)"
proof (induction sched arbitrary: s)
  case Nil
  then show ?case by simp
next
  case (Cons k sched)
  have "length (workers (queue (step k s))) \<le> concurrency (queue (step k s))"
    using step_bound [OF Cons.prems] by simp
  from Cons.IH [OF this] show ?case by simp
qed

section \<open>Helper lemmas: one step of the queue\<close>

lemma sum_list_nth_split:
  fixes f :: "'a \<Rightarrow> 'b::comm_monoid_add"
  assumes "i < length xs"
  shows "(\<Sum>x\<leftarrow>xs. f x) = f (xs ! i) + (\<Sum>x\<leftarrow>take i xs @ drop (Suc i) xs. f x)"
proof -
  have "(\<Sum>x\<leftarrow>xs. f x) = (\<Sum>x\<leftarrow>take i xs @ xs ! i # drop (Suc i) xs. f x)"
    using id_take_nth_drop [OF assms] by simp
  then show ?thesis by (simp add: ac_simps)
qed

lemma sum_list_update_split:
  fixes f :: "'a \<Rightarrow> 'b::comm_monoid_add"
  assumes "i < length xs"
  shows "(\<Sum>x\<leftarrow>list_update xs i y. f x) = f y + (\<Sum>x\<leftarrow>take i xs @ drop (Suc i) xs. f x)"
  using assms by (simp add: upd_conv_take_nth_drop ac_simps)

lemma process_start:
  assumes "pipeline s = Call st f # cs" "\<not> q_paused (queue s)" "uncaught s = None"
  shows "process s =
    s\<lparr> queue := (queue s)\<lparr>
          workers := workers (queue s) @
            map (\<lambda>j. \<lparr> w_job = j, w_stage = st, w_call = f, w_later = cs \<rparr>)
              (take (min (concurrency (queue s) - length (workers (queue s))) (length (tasks (queue s))))
                 (tasks (queue s))),
          tasks := drop (min (concurrency (queue s) - length (workers (queue s))) (length (tasks (queue s))))
                     (tasks (queue s)) \<rparr>,
       trace := trace s @ map (Invoke st)
         (take (min (concurrency (queue s) - length (workers (queue s))) (length (tasks (queue s))))
            (tasks (queue s))) \<rparr>"
  using assms by (simp add: process_def Let_def)

lemma process_idle:
  "tasks (queue s) = [] \<Longrightarrow> process s = s"
  by (simp add: process_def Let_def)

lemma step_none: "workers (queue s) = [] \<Longrightarrow> step k s = s"
  by (simp add: step_def)

lemma step_cases [consumes 2, case_names advance finish throws]:
  assumes "workers (queue s) \<noteq> []" "uncaught s = None"
  obtains
    (advance) i j' e st f cs where
      "i < length (workers (queue s))"
      "w_call (workers (queue s) ! i) (w_job (workers (queue s) ! i)) = (j', e)"
      "\<not> truthy e"
      "w_later (workers (queue s) ! i) = Call st f # cs"
      "step k s = s\<lparr> queue := (queue s)\<lparr> workers := list_update (workers (queue s)) i
                        \<lparr> w_job = j', w_stage = st, w_call = f, w_later = cs \<rparr> \<rparr>,
                     trace := trace s @ [Invoke st j'] \<rparr>"
  | (finish) i a where
      "i < length (workers (queue s))"
      "remaining (workers (queue s) ! i) = [a]"
      "is_job_action a" "\<not> is_callback a"
      "step k s = process (settle (s\<lparr> trace := trace s @ [a],
                    queue := (queue s)\<lparr> workers :=
                      take i (workers (queue s)) @ drop (Suc i) (workers (queue s)) \<rparr> \<rparr>))"
  | (throws) i st err cs where
      "i < length (workers (queue s))"
      "w_later (workers (queue s) ! i) = Throws st err # cs"
      "step k s = s\<lparr> uncaught := Some err \<rparr>"
proof -
  let ?ws = "workers (queue s)"
  let ?i = "k mod length ?ws"
  let ?w = "?ws ! ?i"
  have i: "?i < length ?ws" using assms(1) by simp
  obtain j' e where c: "w_call ?w (w_job ?w) = (j', e)" by (cases "w_call ?w (w_job ?w)")
  show thesis
  proof (cases "truthy e")
    case True
    have "step k s = finish ?i j' (Some e) s"
      using assms c True by (simp add: step_def Let_def)
    then have "step k s = process (settle (s\<lparr> trace := trace s @ [Emit (E_job_fail e (set_error e j'))],
                    queue := (queue s)\<lparr> workers :=
                      take ?i ?ws @ drop (Suc ?i) ?ws \<rparr> \<rparr>))"
      by (simp add: finish_def Let_def emit_def)
    moreover have "remaining ?w = [Emit (E_job_fail e (set_error e j'))]"
      using c True by (simp add: remaining_def)
    ultimately show ?thesis using i finish by simp
  next
    case False
    show ?thesis
    proof (cases "w_later ?w")
      case Nil
      have "step k s = finish ?i j' None s"
        using assms c False Nil by (simp add: step_def Let_def)
      then have "step k s = process (settle (s\<lparr> trace := trace s @ [Emit (E_job_success j')],
                    queue := (queue s)\<lparr> workers :=
                      take ?i ?ws @ drop (Suc ?i) ?ws \<rparr> \<rparr>))"
        by (simp add: finish_def Let_def emit_def)
      moreover have "remaining ?w = [Emit (E_job_success j')]"
        using c False Nil by (simp add: remaining_def)
      ultimately show ?thesis using i finish by simp
    next
      case (Cons c' cs)
      show ?thesis
      proof (cases c')
        case (Call st f)
        have "step k s = s\<lparr> queue := (queue s)\<lparr> workers := list_update ?ws ?i
                        \<lparr> w_job = j', w_stage = st, w_call = f, w_later = cs \<rparr> \<rparr>,
                     trace := trace s @ [Invoke st j'] \<rparr>"
          using assms c False Cons Call by (simp add: step_def Let_def)
        then show ?thesis using advance [OF i c False] Cons Call by simp
      next
        case (Throws st err)
        have "step k s = s\<lparr> uncaught := Some err \<rparr>"
          using assms c False Cons Throws by (simp add: step_def Let_def)
        then show ?thesis using throws [OF i] Cons Throws by simp
      qed
    qed
  qed
qed

lemma in_order_calls:
  assumes "in_order s" "engine s \<noteq> None" "w \<in> set (workers (queue s))"
  shows "list_all is_call (w_later w)"
proof -
  from assms(1,3) have "suffix (Call (w_stage w) (w_call w) # w_later w) (pipeline s)"
    by (simp add: in_order_def)
  then obtain pre where "pipeline s = pre @ Call (w_stage w) (w_call w) # w_later w"
    by (auto simp: suffix_def)
  with pipeline_calls [OF assms(2)] show ?thesis by simp
qed

lemma no_throw:
  assumes "in_order s" "engine s \<noteq> None" "i < length (workers (queue s))"
  shows "w_later (workers (queue s) ! i) \<noteq> Throws st err # cs"
proof
  assume t: "w_later (workers (queue s) ! i) = Throws st err # cs"
  have "workers (queue s) ! i \<in> set (workers (queue s))" using assms(3) by simp
  from in_order_calls [OF assms(1,2) this] t show False by simp
qed

lemma closing:
  assumes "drain (queue s)" "tasks (queue s) = []" "workers (queue s) = []"
  shows "process (settle s) = Scraper_succeed (callback JNull s)"
proof -
  have "settle s = Scraper_succeed (callback JNull s)" using assms by (simp add: settle_def)
  moreover have "tasks (queue (Scraper_succeed (callback JNull s))) = []" by simp
  ultimately show ?thesis by (simp add: process_idle)
qed

lemma continuing:
  assumes "\<not> (drain (queue s) \<and> tasks (queue s) = [] \<and> workers (queue s) = [])"
  shows "process (settle s) = process s"
  using assms by (auto simp: settle_def)

lemma set_release: "set (take i ws @ drop (Suc i) ws) \<subseteq> set ws"
  using set_take_subset [of i ws] set_drop_subset [of "Suc i" ws] by auto

lemma process_in_order:
  assumes "in_order s"
  shows "in_order (process s)"
proof (cases "q_paused (queue s) \<or> uncaught s \<noteq> None
      \<or> min (concurrency (queue s) - length (workers (queue s))) (length (tasks (queue s))) = 0")
  case True
  then have "process s = s" by (auto simp: process_def Let_def)
  with assms show ?thesis by simp
next
  case False
  show ?thesis
  proof (cases "pipeline s")
    case Nil
    then show ?thesis using pipeline_nonempty by simp
  next
    case (Cons c cs)
    show ?thesis
    proof (cases c)
      case (Call st f)
      with Cons have p: "pipeline s = Call st f # cs" by simp
      from False have "\<not> q_paused (queue s)" "uncaught s = None" by auto
      from process_start [OF p this] assms p show ?thesis
        by (auto simp: in_order_def)
    next
      case (Throws st err)
      with Cons False have "process s = s\<lparr> uncaught := Some err \<rparr>"
        by (simp add: process_def Let_def)
      with assms show ?thesis by (simp add: in_order_def)
    qed
  qed
qed

lemma release_in_order:
  assumes "in_order s"
  shows "in_order (s\<lparr> trace := t, queue := (queue s)\<lparr> workers :=
            take i (workers (queue s)) @ drop (Suc i) (workers (queue s)) \<rparr> \<rparr>)"
  using assms set_release [of i "workers (queue s)"] by (auto simp: in_order_def)

lemma settle_in_order:
  assumes "in_order s"
  shows "in_order (settle s)"
  using assms by (simp add: in_order_def)

lemma step_in_order:
  assumes "in_order s"
  shows "in_order (step k s)"
proof (cases "workers (queue s) = [] \<or> uncaught s \<noteq> None")
  case True
  then have "step k s = s" by (auto simp: step_def Let_def)
  with assms show ?thesis by simp
next
  case False
  then have ws: "workers (queue s) \<noteq> []" and u: "uncaught s = None" by auto
  from ws u show ?thesis
  proof (cases rule: step_cases [where k = k])
    case (advance i j' e st f cs)
    have "workers (queue s) ! i \<in> set (workers (queue s))" using advance(1) by simp
    with assms have "suffix (Call (w_stage (workers (queue s) ! i)) (w_call (workers (queue s) ! i))
                        # Call st f # cs) (pipeline s)"
      using advance(4) by (auto simp: in_order_def)
    then have new: "suffix (Call st f # cs) (pipeline s)" by (rule suffix_ConsD)
    have "set (list_update (workers (queue s)) i \<lparr> w_job = j', w_stage = st, w_call = f, w_later = cs \<rparr>)
            \<subseteq> insert \<lparr> w_job = j', w_stage = st, w_call = f, w_later = cs \<rparr> (set (workers (queue s)))"
      by (rule set_update_subset_insert)
    with assms new show ?thesis
      unfolding advance(5) in_order_def by auto
  next
    case (finish i a)
    show ?thesis unfolding finish(5)
      by (intro process_in_order settle_in_order release_in_order assms)
  next
    case (throws i st err cs)
    with assms show ?thesis by (simp add: in_order_def)
  qed
qed

section \<open>Helper lemmas: invariants of a resumed queue\<close>

lemma process_queue:
  assumes "engine s \<noteq> None" "\<not> q_paused (queue s)" "uncaught s = None"
    "length (workers (queue s)) \<le> concurrency (queue s)"
  shows "uncaught (process s) = None"
    and "length (workers (queue (process s))) \<le> concurrency (queue s)"
    and "tasks (queue (process s)) \<noteq> [] \<longrightarrow>
           length (workers (queue (process s))) = concurrency (queue s)"
    and "workers (queue s) \<noteq> [] \<or> (tasks (queue s) \<noteq> [] \<and> 0 < concurrency (queue s)) \<longrightarrow> workers (queue (process s)) \<noteq> []"
    and "filter (\<lambda>a. \<not> is_job_action a) (trace (process s)) = filter (\<lambda>a. \<not> is_job_action a) (trace s)"
proof -
  from pipeline_head [OF assms(1)] obtain st f cs where p: "pipeline s = Call st f # cs" by blast
  note ps = process_start [OF p assms(2,3)]
  show "uncaught (process s) = None" by (simp add: ps assms)
  show "length (workers (queue (process s))) \<le> concurrency (queue s)"
    using assms(4) by (simp add: ps)
  show "tasks (queue (process s)) \<noteq> [] \<longrightarrow>
           length (workers (queue (process s))) = concurrency (queue s)"
    using assms(4) by (auto simp: ps)
  show "workers (queue s) \<noteq> [] \<or> (tasks (queue s) \<noteq> [] \<and> 0 < concurrency (queue s)) \<longrightarrow> workers (queue (process s)) \<noteq> []"
    using assms(4) by (auto simp: ps)
  show "filter (\<lambda>a. \<not> is_job_action a) (trace (process s)) = filter (\<lambda>a. \<not> is_job_action a) (trace s)"
    by (simp add: ps filter_empty_conv)
qed

lemma step_healthy:
  assumes "healthy s"
  shows "healthy (step k s)"
proof (cases "workers (queue s) = []")
  case True
  with assms show ?thesis by (simp add: step_none)
next
  case False
  from assms have u: "uncaught s = None" and e: "engine s \<noteq> None" and o: "in_order s"
    and p: "\<not> q_paused (queue s)" and c: "0 < concurrency (queue s)"
    and b: "length (workers (queue s)) \<le> concurrency (queue s)"
    and t: "tasks (queue s) \<noteq> [] \<longrightarrow> length (workers (queue s)) = concurrency (queue s)"
    by (simp_all add: healthy_def)
  have o': "in_order (step k s)" using o by (rule step_in_order)
  from False u show ?thesis
  proof (cases rule: step_cases [where k = k])
    case (advance i j' e st f cs)
    have "uncaught (step k s) = None" "length (workers (queue (step k s))) = length (workers (queue s))"
      "tasks (queue (step k s)) = tasks (queue s)"
      unfolding advance(5) using u by simp_all
    with o' e p c b t show ?thesis by (simp add: healthy_def)
  next
    case (finish i a)
    let ?s2 = "s\<lparr> trace := trace s @ [a],
                 queue := (queue s)\<lparr> workers :=
                   take i (workers (queue s)) @ drop (Suc i) (workers (queue s)) \<rparr> \<rparr>"
    show ?thesis
    proof (cases "drain (queue ?s2) \<and> tasks (queue ?s2) = [] \<and> workers (queue ?s2) = []")
      case True
      then have eq: "step k s = Scraper_succeed (callback JNull ?s2)"
        using finish(5) closing [of ?s2] by simp
      have "uncaught (step k s) = None" "workers (queue (step k s)) = []"
        "tasks (queue (step k s)) = []"
        using u True by (simp_all add: eq callback_def)
      with o' e p c show ?thesis
        by (simp add: healthy_def)
    next
      case False
      then have st: "step k s = process ?s2" using finish(5) continuing [of ?s2] by simp
      have "engine ?s2 \<noteq> None" "\<not> q_paused (queue ?s2)" "uncaught ?s2 = None"
        "length (workers (queue ?s2)) \<le> concurrency (queue ?s2)"
        using e p u b finish(1) by simp_all
      from process_queue(1-3) [OF this] o' e p c show ?thesis
        unfolding st [symmetric] by (simp add: healthy_def)
    qed
  next
    case (throws i st err cs)
    from no_throw [OF o e throws(1), of st err cs] throws(2) show ?thesis by simp
  qed
qed

lemma exec_healthy: "healthy s \<Longrightarrow> healthy (exec sched s)"
  by (induction sched arbitrary: s) (simp_all add: step_healthy)

lemma work_update:
  assumes "i < length ws"
  shows "(\<Sum>w\<leftarrow>list_update ws i w'. Suc (length (w_later w)))
         + Suc (length (w_later (ws ! i)))
         = (\<Sum>w\<leftarrow>ws. Suc (length (w_later w))) + Suc (length (w_later w'))"
  using assms by (simp add: sum_list_update_split sum_list_nth_split [OF assms])

lemma work_release:
  assumes "i < length ws"
  shows "(\<Sum>w\<leftarrow>take i ws @ drop (Suc i) ws. Suc (length (w_later w)))
         < (\<Sum>w\<leftarrow>ws. Suc (length (w_later w)))"
  by (simp add: sum_list_nth_split [OF assms])

lemma process_work: "work (process s) = work s"
proof (cases "q_paused (queue s) \<or> uncaught s \<noteq> None
      \<or> min (concurrency (queue s) - length (workers (queue s))) (length (tasks (queue s))) = 0")
  case True
  then have "process s = s" by (auto simp: process_def Let_def)
  then show ?thesis by simp
next
  case False
  show ?thesis
  proof (cases "pipeline s")
    case Nil
    then show ?thesis using pipeline_nonempty by simp
  next
    case (Cons c cs)
    show ?thesis
    proof (cases c)
      case (Call st f)
      with Cons have p: "pipeline s = Call st f # cs" by simp
      from False have np: "\<not> q_paused (queue s)" "uncaught s = None" by auto
      define n where "n = min (concurrency (queue s) - length (workers (queue s))) (length (tasks (queue s)))"
      have n: "n \<le> length (tasks (queue s))" by (simp add: n_def)
      have ps: "process s = s\<lparr> queue := (queue s)\<lparr>
          workers := workers (queue s) @
            map (\<lambda>j. \<lparr> w_job = j, w_stage = st, w_call = f, w_later = cs \<rparr>) (take n (tasks (queue s))),
          tasks := drop n (tasks (queue s)) \<rparr>,
          trace := trace s @ map (Invoke st) (take n (tasks (queue s))) \<rparr>"
        unfolding n_def by (rule process_start [OF p np])
      have "n * Suc (length cs) + (length (tasks (queue s)) - n) * Suc (length cs)
              = (n + (length (tasks (queue s)) - n)) * Suc (length cs)"
        by (simp only: add_mult_distrib)
      also have "\<dots> = length (tasks (queue s)) * Suc (length cs)" using n by simp
      finally have d: "n * Suc (length cs) + (length (tasks (queue s)) - n) * Suc (length cs)
              = length (tasks (queue s)) * Suc (length cs)" .
      have "work (process s) = (\<Sum>w\<leftarrow>workers (queue s). Suc (length (w_later w)))
              + (n * Suc (length cs) + (length (tasks (queue s)) - n) * Suc (length cs))"
        using n by (simp add: work_def ps p comp_def sum_list_triv min_absorb2 del: mult_Suc_right)
      then show ?thesis unfolding d by (simp add: work_def p)
    next
      case (Throws st err)
      with Cons False have "process s = s\<lparr> uncaught := Some err \<rparr>"
        by (simp add: process_def Let_def)
      then show ?thesis by (simp add: work_def)
    qed
  qed
qed

lemma settle_work: "work (settle s) = work s"
  by (simp add: work_def)

lemma step_work:
  assumes "healthy s" "workers (queue s) \<noteq> []"
  shows "work (step k s) < work s"
proof -
  from assms have u: "uncaught s = None" and e: "engine s \<noteq> None" and o: "in_order s"
    by (simp_all add: healthy_def)
  from assms(2) u show ?thesis
  proof (cases rule: step_cases [where k = k])
    case (advance i j' e st f cs)
    from work_update [OF advance(1), of "\<lparr> w_job = j', w_stage = st, w_call = f, w_later = cs \<rparr>"]
    show ?thesis unfolding advance(5) work_def by (simp add: advance(4))
  next
    case (finish i a)
    have "work (step k s) = work (s\<lparr> trace := trace s @ [a],
                 queue := (queue s)\<lparr> workers :=
                   take i (workers (queue s)) @ drop (Suc i) (workers (queue s)) \<rparr> \<rparr>)"
      unfolding finish(5) by (simp add: process_work settle_work)
    also have "\<dots> < work s"
      using work_release [OF finish(1)] by (simp add: work_def)
    finally show ?thesis .
  next
    case (throws i st err cs)
    from no_throw [OF o e throws(1), of st err cs] throws(2) show ?thesis by simp
  qed
qed

section \<open>Helper lemmas: the job actions of a run\<close>

lemma remaining_started:
  "mset (queue_worker (Call st f # cs) j)
     = add_mset (Invoke st j) (mset (remaining \<lparr> w_job = j, w_stage = st, w_call = f, w_later = cs \<rparr>))"
  by (simp add: remaining_def split: prod.splits)

lemma started_expected:
  "(\<Sum>j\<leftarrow>ts. mset (queue_worker (Call st f # cs) j))
     = mset (map (Invoke st) ts)
       + (\<Sum>w\<leftarrow>map (\<lambda>j. \<lparr> w_job = j, w_stage = st, w_call = f, w_later = cs \<rparr>) ts. mset (remaining w))"
  by (induction ts) (simp_all add: remaining_started comp_def del: queue_worker.simps)

lemma filter_job_invokes: "filter is_job_action (map (Invoke st) ts) = map (Invoke st) ts"
  by (induction ts) simp_all

lemma process_expected: "expected (process s) = expected s"
proof (cases "q_paused (queue s) \<or> uncaught s \<noteq> None
      \<or> min (concurrency (queue s) - length (workers (queue s))) (length (tasks (queue s))) = 0")
  case True
  then have "process s = s" by (auto simp: process_def Let_def)
  then show ?thesis by simp
next
  case False
  show ?thesis
  proof (cases "pipeline s")
    case Nil
    then show ?thesis using pipeline_nonempty by simp
  next
    case (Cons c cs)
    show ?thesis
    proof (cases c)
      case (Call st f)
      with Cons have p: "pipeline s = Call st f # cs" by simp
      from False have np: "\<not> q_paused (queue s)" "uncaught s = None" by auto
      define n where "n = min (concurrency (queue s) - length (workers (queue s))) (length (tasks (queue s)))"
      have ps: "process s = s\<lparr> queue := (queue s)\<lparr>
          workers := workers (queue s) @
            map (\<lambda>j. \<lparr> w_job = j, w_stage = st, w_call = f, w_later = cs \<rparr>) (take n (tasks (queue s))),
          tasks := drop n (tasks (queue s)) \<rparr>,
          trace := trace s @ map (Invoke st) (take n (tasks (queue s))) \<rparr>"
        unfolding n_def by (rule process_start [OF p np])
      have "(\<Sum>j\<leftarrow>tasks (queue s). mset (queue_worker (Call st f # cs) j))
             = (\<Sum>j\<leftarrow>take n (tasks (queue s)) @ drop n (tasks (queue s)). mset (queue_worker (Call st f # cs) j))"
        by simp
      also have "\<dots> = (\<Sum>j\<leftarrow>take n (tasks (queue s)). mset (queue_worker (Call st f # cs) j))
                      + (\<Sum>j\<leftarrow>drop n (tasks (queue s)). mset (queue_worker (Call st f # cs) j))"
        by (simp only: map_append sum_list_append)
      finally have split: "(\<Sum>j\<leftarrow>tasks (queue s). mset (queue_worker (Call st f # cs) j))
        = mset (map (Invoke st) (take n (tasks (queue s))))
          + (\<Sum>w\<leftarrow>map (\<lambda>j. \<lparr> w_job = j, w_stage = st, w_call = f, w_later = cs \<rparr>) (take n (tasks (queue s))). mset (remaining w))
          + (\<Sum>j\<leftarrow>drop n (tasks (queue s)). mset (queue_worker (Call st f # cs) j))"
        by (simp only: started_expected)
      show ?thesis
        unfolding expected_def
        by (simp add: ps p split filter_job_invokes del: queue_worker.simps)
    next
      case (Throws st err)
      with Cons False have "process s = s\<lparr> uncaught := Some err \<rparr>"
        by (simp add: process_def Let_def)
      then show ?thesis by (simp add: expected_def)
    qed
  qed
qed

lemma settle_expected: "expected (settle s) = expected s"
  by (simp add: expected_def settle_def callback_def)

lemma step_expected: "expected (step k s) = expected s"
proof (cases "workers (queue s) = [] \<or> uncaught s \<noteq> None")
  case True
  then have "step k s = s" by (auto simp: step_def Let_def)
  then show ?thesis by simp
next
  case False
  then have ws: "workers (queue s) \<noteq> []" and u: "uncaught s = None" by auto
  from ws u show ?thesis
  proof (cases rule: step_cases [where k = k])
    case (advance i j' e st f cs)
    have "remaining (workers (queue s) ! i) = queue_worker (Call st f # cs) j'"
      using advance(2,3,4) by (simp add: remaining_def)
    then have r: "mset (remaining (workers (queue s) ! i))
        = add_mset (Invoke st j') (mset (remaining \<lparr> w_job = j', w_stage = st, w_call = f, w_later = cs \<rparr>))"
      by (simp only: remaining_started)
    show ?thesis
      unfolding expected_def advance(5)
      by (simp add: sum_list_update_split [OF advance(1)]
           sum_list_nth_split [OF advance(1), of "\<lambda>w. mset (remaining w)"] r)
  next
    case (finish i a)
    have "expected (step k s) = expected (s\<lparr> trace := trace s @ [a],
                 queue := (queue s)\<lparr> workers :=
                   take i (workers (queue s)) @ drop (Suc i) (workers (queue s)) \<rparr> \<rparr>)"
      unfolding finish(5) by (simp only: process_expected settle_expected)
    also have "\<dots> = expected s"
      unfolding expected_def
      by (simp add: sum_list_nth_split [OF finish(1), of "\<lambda>w. mset (remaining w)"] finish(2,3))
    finally show ?thesis .
  next
    case (throws i st err cs)
    then show ?thesis by (simp add: expected_def)
  qed
qed

lemma exec_expected: "expected (exec sched s) = expected s"
  by (induction sched arbitrary: s) (simp_all add: step_expected)

lemma step_opened:
  assumes "opened s"
  shows "opened (step k s) \<or> closed (step k s)"
proof -
  from assms have h: "healthy s" and d: "drain (queue s)" and ws: "workers (queue s) \<noteq> []"
    and tr: "filter (\<lambda>a. \<not> is_job_action a) (trace s) = [Emit E_scraper_start]"
    by (simp_all add: opened_def)
  from h have u: "uncaught s = None" and e: "engine s \<noteq> None" and o: "in_order s"
    and p: "\<not> q_paused (queue s)" and c: "0 < concurrency (queue s)"
    and b: "length (workers (queue s)) \<le> concurrency (queue s)"
    and t: "tasks (queue s) \<noteq> [] \<longrightarrow> length (workers (queue s)) = concurrency (queue s)"
    by (simp_all add: healthy_def)
  have h': "healthy (step k s)" using h by (rule step_healthy)
  from ws u show ?thesis
  proof (cases rule: step_cases [where k = k])
    case (advance i j' e st f cs)
    have "drain (queue (step k s))" "workers (queue (step k s)) \<noteq> []"
      "filter (\<lambda>a. \<not> is_job_action a) (trace (step k s)) = [Emit E_scraper_start]"
      unfolding advance(5) using d ws tr by simp_all
    with h' show ?thesis by (simp add: opened_def)
  next
    case (finish i a)
    let ?s2 = "s\<lparr> trace := trace s @ [a],
                 queue := (queue s)\<lparr> workers :=
                   take i (workers (queue s)) @ drop (Suc i) (workers (queue s)) \<rparr> \<rparr>"
    show ?thesis
    proof (cases "tasks (queue ?s2) = [] \<and> workers (queue ?s2) = []")
      case True
      then have eq: "step k s = Scraper_succeed (callback JNull ?s2)"
        using finish(5) closing [of ?s2] d by simp
      have "closed (step k s)"
        using True u tr finish(3)
        by (simp add: eq closed_def callback_def closing_actions_def)
      then show ?thesis ..
    next
      case False
      then have st: "step k s = process ?s2" using finish(5) continuing [of ?s2] by simp
      have pre: "engine ?s2 \<noteq> None" "\<not> q_paused (queue ?s2)" "uncaught ?s2 = None"
        "length (workers (queue ?s2)) \<le> concurrency (queue ?s2)"
        using e p u b finish(1) by simp_all
      have free: "length (workers (queue ?s2)) < concurrency (queue ?s2)"
        using b finish(1) by simp
      have "workers (queue ?s2) \<noteq> [] \<or> (tasks (queue ?s2) \<noteq> [] \<and> 0 < concurrency (queue ?s2))"
        using False c by auto
      with process_queue(4) [OF pre] have "workers (queue (step k s)) \<noteq> []"
        unfolding st by blast
      moreover have "filter (\<lambda>a. \<not> is_job_action a) (trace (step k s)) = [Emit E_scraper_start]"
        unfolding st process_queue(5) [OF pre] using tr finish(3) by simp
      moreover have "drain (queue (step k s))" unfolding st using d by simp
      ultimately show ?thesis using h' by (simp add: opened_def)
    qed
  next
    case (throws i st err cs)
    from no_throw [OF o e throws(1), of st err cs] throws(2) show ?thesis by simp
  qed
qed

lemma step_closed: "closed s \<Longrightarrow> step k s = s"
  by (simp add: closed_def step_none)

lemma exec_closed: "closed s \<Longrightarrow> exec sched s = s"
  by (induction sched) (simp_all add: step_closed)

lemma exec_opened: "opened s \<Longrightarrow> opened (exec sched s) \<or> closed (exec sched s)"
proof (induction sched arbitrary: s)
  case Nil
  then show ?case by simp
next
  case (Cons k sched)
  from step_opened [OF Cons.prems, of k] show ?case
  proof
    assume "opened (step k s)"
    from Cons.IH [OF this] show ?thesis by simp
  next
    assume "closed (step k s)"
    then show ?thesis by (simp add: exec_closed)
  qed
qed

lemma opened_work: "opened s \<Longrightarrow> 0 < work s"
  by (cases "workers (queue s)") (simp_all add: opened_def work_def)

lemma exec_terminates:
  "opened s \<Longrightarrow> work s \<le> length sched \<Longrightarrow> closed (exec sched s)"
proof (induction sched arbitrary: s)
  case Nil
  with opened_work [of s] show ?case by simp
next
  case (Cons k sched)
  from Cons.prems(1) have "healthy s" "workers (queue s) \<noteq> []" by (simp_all add: opened_def)
  from step_work [OF this, of k] Cons.prems(2) have w: "work (step k s) \<le> length sched" by simp
  from step_opened [OF Cons.prems(1), of k] show ?case
  proof
    assume "opened (step k s)"
    from Cons.IH [OF this w] show ?thesis by simp
  next
    assume "closed (step k s)"
    then show ?thesis by (simp add: exec_closed)
  qed
qed

section \<open>Helper lemmas: \<open>run\<close>\<close>

lemma series_first:
  "\<forall>x \<in> set pre. \<not> truthy x \<Longrightarrow> truthy e \<Longrightarrow> series (pre @ e # post) = Some e"
  by (induction pre) simp_all

lemma run_fails:
  "series (before_mws (middlewares s)) = Some err \<Longrightarrow>
     Scraper_run s = Scraper_fail err (callback err (emit E_scraper_start s))"
  by (simp add: Scraper_run_def Let_def emit_def)

lemma run_resumes:
  "series (before_mws (middlewares s)) = None \<Longrightarrow> q_paused (queue s) \<Longrightarrow>
     Scraper_run s = process (s\<lparr> trace := trace s @ [Emit E_scraper_start],
                                 queue := (queue s)\<lparr> drain := True, q_paused := False \<rparr> \<rparr>)"
  by (simp add: Scraper_run_def Let_def emit_def resume_def)

lemma run_frame [simp]:
  "concurrency (queue (Scraper_run s)) = concurrency (queue s)"
  "engine (Scraper_run s) = engine s"
  "middlewares (Scraper_run s) = middlewares s"
  "options (Scraper_run s) = options s"
  by (simp_all add: Scraper_run_def Let_def emit_def resume_def callback_def split: option.splits)

lemma run_pipeline [simp]: "pipeline (Scraper_run s) = pipeline s"
  by (rule pipeline_cong) simp_all

lemma run_failed:
  assumes "idle s" "series (before_mws (middlewares s)) = Some err"
  shows "trace (Scraper_run s) = [Emit E_scraper_start, Callback err, Emit (E_scraper_fail err),
                                  Emit (E_scraper_end ''fail''), Emit E_scraper_teardown]"
    and "workers (queue (Scraper_run s)) = []"
    and "tasks (queue (Scraper_run s)) = []"
    and "q_paused (queue (Scraper_run s))"
    and "\<not> drain (queue (Scraper_run s))"
    and "listeners (Scraper_run s) = []"
    and "fulfilled (state (Scraper_run s))"
    and "\<not> running (state (Scraper_run s))"
  using assms by (simp_all add: run_fails idle_def callback_def emit_def)

lemma run_bound:
  assumes "idle s"
  shows "length (workers (queue (Scraper_run s))) \<le> concurrency (queue s)"
proof (cases "series (before_mws (middlewares s))")
  case None
  from assms have p: "q_paused (queue s)" and w: "workers (queue s) = []" by (simp_all add: idle_def)
  let ?s1 = "s\<lparr> trace := trace s @ [Emit E_scraper_start],
               queue := (queue s)\<lparr> drain := True, q_paused := False \<rparr> \<rparr>"
  have "length (workers (queue ?s1)) \<le> concurrency (queue ?s1)" using w by simp
  from process_bound [OF this] show ?thesis by (simp add: run_resumes [OF None p])
next
  case (Some err)
  from run_failed(2) [OF assms Some] show ?thesis by simp
qed

lemma run_in_order:
  assumes "idle s"
  shows "in_order (Scraper_run s)"
proof (cases "series (before_mws (middlewares s))")
  case None
  from assms have p: "q_paused (queue s)" and w: "workers (queue s) = []" by (simp_all add: idle_def)
  let ?s1 = "s\<lparr> trace := trace s @ [Emit E_scraper_start],
               queue := (queue s)\<lparr> drain := True, q_paused := False \<rparr> \<rparr>"
  have "in_order ?s1" using w by (simp add: in_order_def)
  from process_in_order [OF this] show ?thesis by (simp add: run_resumes [OF None p])
next
  case (Some err)
  from run_failed(2) [OF assms Some] show ?thesis by (simp add: in_order_def)
qed

lemma run_opened:
  assumes "idle s" "engine s \<noteq> None" "0 < concurrency (queue s)"
    "series (before_mws (middlewares s)) = None" "tasks (queue s) \<noteq> []"
  shows "opened (Scraper_run s)"
proof -
  from assms(1) have p: "q_paused (queue s)" and w: "workers (queue s) = []"
    and u: "uncaught s = None" and t: "trace s = []" by (simp_all add: idle_def)
  let ?s1 = "s\<lparr> trace := trace s @ [Emit E_scraper_start],
               queue := (queue s)\<lparr> drain := True, q_paused := False \<rparr> \<rparr>"
  have eq: "Scraper_run s = process ?s1" by (rule run_resumes [OF assms(4) p])
  have pre: "engine ?s1 \<noteq> None" "\<not> q_paused (queue ?s1)" "uncaught ?s1 = None"
    "length (workers (queue ?s1)) \<le> concurrency (queue ?s1)"
    using assms(2) u w by simp_all
  have "in_order ?s1" using w by (simp add: in_order_def)
  then have o: "in_order (Scraper_run s)" unfolding eq by (rule process_in_order)
  have start: "workers (queue ?s1) \<noteq> [] \<or> (tasks (queue ?s1) \<noteq> [] \<and> 0 < concurrency (queue ?s1))"
    using assms(3,5) by simp
  have fr: "\<not> q_paused (queue (Scraper_run s))" "drain (queue (Scraper_run s))"
    by (simp_all add: eq)
  from process_queue [OF pre] start o assms(2,3) t fr
  show ?thesis unfolding eq [symmetric] opened_def healthy_def by simp
qed

lemma run_expected:
  assumes "idle s" "series (before_mws (middlewares s)) = None"
  shows "expected (Scraper_run s) = (\<Sum>j\<leftarrow>tasks (queue s). mset (queue_worker (pipeline s) j))"
proof -
  from assms(1) have p: "q_paused (queue s)" and w: "workers (queue s) = []"
    and t: "trace s = []" by (simp_all add: idle_def)
  show ?thesis
    unfolding run_resumes [OF assms(2) p] process_expected
    by (simp add: expected_def w t)
qed

lemma closed_expected: "closed s \<Longrightarrow> expected s = mset (filter is_job_action (trace s))"
  by (simp add: closed_def expected_def)

lemma closed_lifecycle:
  assumes "closed s"
  shows "filter (\<lambda>a. \<not> is_job_action a) (trace s) = Emit E_scraper_start # closing_actions"
proof -
  from assms have a: "filter (\<lambda>a. \<not> is_job_action a) (take (length (trace s) - 4) (trace s))
                     = [Emit E_scraper_start]"
    and b: "drop (length (trace s) - 4) (trace s) = closing_actions"
    by (simp_all add: closed_def)
  have "filter (\<lambda>a. \<not> is_job_action a) (trace s)
        = filter (\<lambda>a. \<not> is_job_action a) (take (length (trace s) - 4) (trace s) @ drop (length (trace s) - 4) (trace s))"
    by simp
  also have "\<dots> = Emit E_scraper_start # closing_actions"
    unfolding filter_append a b by (simp add: closing_actions_def)
  finally show ?thesis .
qed

lemma fail_event:
  "Emit (E_job_fail e j') \<in> set (queue_worker cs j) \<Longrightarrow>
     truthy e \<and> lookup (res j') ''error'' = e"
proof (induction cs j rule: queue_worker.induct)
  case (1 j)
  then show ?case by simp
next
  case (2 st f cs j)
  then show ?case
    by (auto simp: set_error_def lookup_def AList.update_conv' split: prod.splits if_splits)
next
  case (3 st err cs j)
  then show ?case by simp
qed

lemma in_sum_mset:
  "a \<in># (\<Sum>x\<leftarrow>xs. mset (f x)) \<Longrightarrow> \<exists>x \<in> set xs. a \<in> set (f x)"
  by (induction xs) auto

section \<open>Helper lemmas: the small scraper, series and stages\<close>

lemmas demo_simps = demo_def Scraper_url_def Scraper_def mount_def demo_world_def
  push_def process_def createJob_def Let_def js_or_def lookup_def defaults_def enumerate_eq_zip

lemma demo_idle: "idle demo"
  by (simp add: demo_simps idle_def)

lemma demo_queue:
  "concurrency (queue demo) = 2" "length (tasks (queue demo)) = 2" "engine demo = Some demo_fetch"
  "before_mws (middlewares demo) = []" "beforeScraping_mws (middlewares demo) = []"
  "afterScraping_mws (middlewares demo) = []"
  by (simp_all add: demo_simps)

lemma demo_pipeline: "pipeline demo = [Call Engine_fetch demo_fetch]"
  by (simp add: pipeline_def beforeScraping_def scrape_def afterScraping_def demo_queue)

lemma demo_empty_idle: "idle demo_empty"
  by (simp add: demo_empty_def mount_def Scraper_def Let_def idle_def)

lemma demo_empty_queue:
  "tasks (queue demo_empty) = []" "before_mws (middlewares demo_empty) = []"
  by (simp_all add: demo_empty_def mount_def Scraper_def Let_def)

lemma run_completes:
  assumes "idle s" "engine s \<noteq> None" "0 < concurrency (queue s)"
    "series (before_mws (middlewares s)) = None" "tasks (queue s) \<noteq> []"
    "length (tasks (queue s)) * length (pipeline s) \<le> length sched"
  shows "closed (exec sched (Scraper_run s))"
proof -
  have o: "opened (Scraper_run s)" using assms(1-5) by (rule run_opened)
  from assms(1) have p: "q_paused (queue s)" and w: "workers (queue s) = []" by (simp_all add: idle_def)
  have "work (Scraper_run s) = length (tasks (queue s)) * length (pipeline s)"
    unfolding run_resumes [OF assms(4) p] process_work by (simp add: work_def w)
  with assms(6) have "work (Scraper_run s) \<le> length sched" by simp
  with o show ?thesis by (rule exec_terminates)
qed

lemma series_continues:
  "queue_worker xs j = acts @ [Emit (E_job_success j')] \<Longrightarrow>
     queue_worker (xs @ ys) j = acts @ queue_worker ys j'"
proof (induction xs j arbitrary: acts rule: queue_worker.induct)
  case (1 j)
  then show ?case by simp
next
  case (2 st f cs j)
  obtain j1 e where c: "f j = (j1, e)" by (cases "f j")
  show ?case
  proof (cases "truthy e")
    case True
    with 2(2) c have "[Invoke st j, Emit (E_job_fail e (set_error e j1))] = acts @ [Emit (E_job_success j')]"
      by simp
    then have "last [Invoke st j, Emit (E_job_fail e (set_error e j1))] = last (acts @ [Emit (E_job_success j')])"
      by (rule arg_cong)
    then show ?thesis by simp
  next
    case False
    with 2(2) c have eq: "Invoke st j # queue_worker cs j1 = acts @ [Emit (E_job_success j')]"
      by simp
    then obtain acts' where a: "acts = Invoke st j # acts'"
      by (cases acts) auto
    with eq have "queue_worker cs j1 = acts' @ [Emit (E_job_success j')]" by simp
    from 2(1) [OF c [symmetric] False this] a c False show ?thesis by simp
  qed
next
  case (3 st err cs j)
  then show ?case by simp
qed

lemma series_invoked:
  "queue_worker cs j = acts @ [Emit (E_job_success j')] \<Longrightarrow> invoked acts = map stage_of cs"
proof (induction cs j arbitrary: acts rule: queue_worker.induct)
  case (1 j)
  then show ?case by simp
next
  case (2 st f cs j)
  obtain j1 e where c: "f j = (j1, e)" by (cases "f j")
  show ?case
  proof (cases "truthy e")
    case True
    with 2(2) c have "[Invoke st j, Emit (E_job_fail e (set_error e j1))] = acts @ [Emit (E_job_success j')]"
      by simp
    then have "last [Invoke st j, Emit (E_job_fail e (set_error e j1))] = last (acts @ [Emit (E_job_success j')])"
      by (rule arg_cong)
    then show ?thesis by simp
  next
    case False
    with 2(2) c have eq: "Invoke st j # queue_worker cs j1 = acts @ [Emit (E_job_success j')]"
      by simp
    then obtain acts' where a: "acts = Invoke st j # acts'"
      by (cases acts) auto
    with eq have "queue_worker cs j1 = acts' @ [Emit (E_job_success j')]" by simp
    from 2(1) [OF c [symmetric] False this] a show ?thesis by simp
  qed
next
  case (3 st err cs j)
  then show ?case by simp
qed

lemma invoked_append: "invoked (xs @ ys) = invoked xs @ invoked ys"
  by (induction xs rule: invoked.induct) simp_all

lemma before_nth:
  "i < length (beforeScraping_mws (middlewares s)) \<Longrightarrow>
     beforeScraping s ! i
       = Call (BeforeScraping_mw i)
           (\<lambda>j. case (beforeScraping_mws (middlewares s) ! i) (req j) of (r, e) \<Rightarrow> (j\<lparr> req := r \<rparr>, e))"
  by (simp add: beforeScraping_def nth_enumerate_eq)

lemma before_stages:
  "map stage_of (beforeScraping s)
     = map BeforeScraping_mw [0..<length (beforeScraping_mws (middlewares s))]"
  by (rule nth_equalityI) (simp_all add: beforeScraping_def nth_enumerate_eq)

lemma in_order_sorted:
  assumes "in_order s" "w \<in> set (workers (queue s))"
  shows "sorted (map phase (w_stage w # map stage_of (w_later w)))"
proof -
  from assms have "suffix (Call (w_stage w) (w_call w) # w_later w) (pipeline s)"
    by (simp add: in_order_def)
  then obtain pre where p: "pipeline s = pre @ Call (w_stage w) (w_call w) # w_later w"
    by (auto simp: suffix_def)
  have "sorted (map (phase \<circ> stage_of) (pipeline s))" by (rule pipeline_sorted)
  then have "sorted (map (phase \<circ> stage_of) (Call (w_stage w) (w_call w) # w_later w))"
    unfolding p by (simp add: sorted_append)
  then show ?thesis by (simp add: comp_def)
qed

lemma exec_in_order: "in_order s \<Longrightarrow> in_order (exec sched s)"
  by (induction sched arbitrary: s) (simp_all add: step_in_order)

lemma lookup_extend:
  "lookup (extend patch opts) k = (case map_of patch k of Some v \<Rightarrow> v | None \<Rightarrow> lookup opts k)"
  by (simp add: lookup_def extend_def AList.merge_conv' map_add_def split: option.splits)

section \<open>Helper lemmas: the log of one job\<close>

lemma about_simps [simp]:
  "about x [] = []"
  "about x (a # as) = (if subject a = Some x then a # about x as else about x as)"
  "about x (as @ bs) = about x as @ about x bs"
  by (simp_all add: about_def)

lemma series_subject:
  "list_all keeps cs \<Longrightarrow> a \<in> set (queue_worker cs j) \<Longrightarrow> subject a = Some (job_id j)"
proof (induction cs j rule: queue_worker.induct)
  case (1 j)
  then show ?case by simp
next
  case (2 st f cs j)
  obtain j1 e where c: "f j = (j1, e)" by (cases "f j")
  from 2(2) have k: "keeps_id f" and ks: "list_all keeps cs" by simp_all
  from k c have id: "job_id j1 = job_id j" by (auto simp: keeps_id_def dest: spec [of _ j])
  show ?case
  proof (cases "truthy e")
    case True
    with 2(3) c id show ?thesis by (auto simp: set_error_def)
  next
    case False
    with 2(3) c have "a = Invoke st j \<or> a \<in> set (queue_worker cs j1)" by simp
    then show ?thesis
    proof
      assume "a = Invoke st j"
      then show ?thesis by simp
    next
      assume "a \<in> set (queue_worker cs j1)"
      from 2(1) [OF c [symmetric] False ks this] id show ?thesis by simp
    qed
  qed
next
  case (3 st err cs j)
  then show ?case by simp
qed

lemma about_all: "\<forall>a \<in> set as. subject a = Some y \<Longrightarrow> about x as = (if x = y then as else [])"
  by (induction as) auto

lemma series_about:
  "list_all keeps cs \<Longrightarrow>
     about x (queue_worker cs j) = (if x = job_id j then queue_worker cs j else [])"
  by (rule about_all) (simp add: series_subject)

lemma remaining_subject:
  assumes "keeps_id (w_call w)" "list_all keeps (w_later w)" "a \<in> set (remaining w)"
  shows "subject a = Some (job_id (w_job w))"
proof -
  have "remaining w = tl (queue_worker (Call (w_stage w) (w_call w) # w_later w) (w_job w))"
    by (simp add: remaining_def)
  with assms(3) have "a \<in> set (queue_worker (Call (w_stage w) (w_call w) # w_later w) (w_job w))"
    by (simp del: queue_worker.simps) (metis list.sel(2) list.set_sel(2))
  moreover have "list_all keeps (Call (w_stage w) (w_call w) # w_later w)" using assms(1,2) by simp
  ultimately show ?thesis by (rule series_subject [rotated])
qed

lemma remaining_about:
  assumes "keeps_id (w_call w)" "list_all keeps (w_later w)"
  shows "about x (remaining w) = (if x = job_id (w_job w) then remaining w else [])"
  by (rule about_all) (simp add: remaining_subject [OF assms])

lemma tidy_worker:
  assumes "tidy s" "w \<in> set (workers (queue s))"
  shows "keeps_id (w_call w)" "list_all keeps (w_later w)"
proof -
  from assms have "suffix (Call (w_stage w) (w_call w) # w_later w) (pipeline s)"
    by (simp add: tidy_def in_order_def)
  then obtain pre where "pipeline s = pre @ Call (w_stage w) (w_call w) # w_later w"
    by (auto simp: suffix_def)
  moreover from assms(1) have "list_all keeps (pipeline s)" by (simp add: tidy_def)
  ultimately show "keeps_id (w_call w)" "list_all keeps (w_later w)" by simp_all
qed

lemma pipeline_keeps:
  assumes "engine s = Some fetch" "keeps_id fetch"
  shows "list_all keeps (pipeline s)"
  using assms
  by (auto simp: pipeline_def scrape_def beforeScraping_def afterScraping_def list_all_iff
        keeps_id_def split: prod.splits)

lemma silent:
  assumes "\<forall>w \<in> set ws. keeps_id (w_call w) \<and> list_all keeps (w_later w)"
    and "\<forall>w \<in> set ws. job_id (w_job w) \<noteq> x"
  shows "concat (map (\<lambda>w. about x (remaining w)) ws) = []"
  using assms by (induction ws) (auto simp: remaining_about)

lemma silent_tasks:
  assumes "list_all keeps cs" and "\<forall>j \<in> set ts. job_id j \<noteq> x"
  shows "concat (map (\<lambda>j. about x (queue_worker cs j)) ts) = []"
  using assms by (induction ts) (auto simp: series_about simp del: queue_worker.simps)

lemma worker_moves:
  assumes c: "\<forall>v \<in> set (pre @ w # post). keeps_id (w_call v) \<and> list_all keeps (w_later v)"
    and d: "distinct (map (job_id \<circ> w_job) (pre @ w # post))"
    and r: "remaining w = a # rest" and s: "subject a = Some (job_id (w_job w))"
    and r': "about x rest = (if x = job_id (w_job w) then rest else [])"
  shows "about x [a] @ concat (map (\<lambda>w. about x (remaining w)) pre) @ about x rest
           @ concat (map (\<lambda>w. about x (remaining w)) post)
         = concat (map (\<lambda>w. about x (remaining w)) (pre @ w # post))"
proof (cases "x = job_id (w_job w)")
  case True
  from d True have "\<forall>v \<in> set pre. job_id (w_job v) \<noteq> x" by (auto simp: image_iff)
  with c have p: "concat (map (\<lambda>w. about x (remaining w)) pre) = []" by (intro silent) auto
  from c have "about x (remaining w) = remaining w"
    using True by (simp add: remaining_about)
  then have w: "about x (remaining w) = a # rest" by (simp only: r)
  have a: "about x [a] = [a]" using s True by simp
  have rest: "about x rest = rest" using r' True by simp
  show ?thesis by (simp add: p w a rest del: about_simps)
next
  case False
  from c have w: "about x (remaining w) = []" using False by (simp add: remaining_about)
  have a: "about x [a] = []" using s False by auto
  have rest: "about x rest = []" using r' False by simp
  show ?thesis by (simp add: w a rest del: about_simps)
qed

lemma tasks_start:
  assumes k: "keeps_id f" "list_all keeps cs" and d: "distinct (map job_id ts)"
  shows "about x (map (Invoke st) ts)
           @ concat (map (\<lambda>w. about x (remaining w))
                (map (\<lambda>j. \<lparr> w_job = j, w_stage = st, w_call = f, w_later = cs \<rparr>) ts))
         = concat (map (\<lambda>j. about x (queue_worker (Call st f # cs) j)) ts)"
  using d
proof (induction ts)
  case Nil
  then show ?case by simp
next
  case (Cons j ts)
  let ?mk = "\<lambda>j. \<lparr> w_job = j, w_stage = st, w_call = f, w_later = cs \<rparr>"
  have ks: "list_all keeps (Call st f # cs)" using k by simp
  have unroll: "queue_worker (Call st f # cs) j = Invoke st j # remaining (?mk j)"
    by (simp add: remaining_def split: prod.splits)
  have rem: "about x (remaining (?mk j)) = (if x = job_id j then remaining (?mk j) else [])"
    using remaining_about [of "?mk j" x] k by simp
  show ?case
  proof (cases "x = job_id j")
    case True
    with Cons.prems have other: "\<forall>j' \<in> set ts. job_id j' \<noteq> x" by (auto simp: image_iff)
    then have i: "about x (map (Invoke st) ts) = []" by (induction ts) simp_all
    have w: "concat (map (\<lambda>w. about x (remaining w)) (map ?mk ts)) = []"
      using other k by (intro silent) auto
    have t: "concat (map (\<lambda>j. about x (queue_worker (Call st f # cs) j)) ts) = []"
      using ks other by (rule silent_tasks)
    have "about x (queue_worker (Call st f # cs) j) = queue_worker (Call st f # cs) j"
      using series_about [OF ks, of x j] True by (simp del: queue_worker.simps)
    then have h: "about x (queue_worker (Call st f # cs) j) = Invoke st j # remaining (?mk j)"
      by (simp only: unroll)
    have r: "about x (remaining (?mk j)) = remaining (?mk j)" using rem True by simp
    have "about x (map (Invoke st) (j # ts)) = Invoke st j # about x (map (Invoke st) ts)"
      using True by simp
    then have l: "about x (map (Invoke st) (j # ts)) = [Invoke st j]" by (simp only: i)
    have "concat (map (\<lambda>w. about x (remaining w)) (map ?mk (j # ts)))
            = about x (remaining (?mk j)) @ concat (map (\<lambda>w. about x (remaining w)) (map ?mk ts))"
      by simp
    then have m: "concat (map (\<lambda>w. about x (remaining w)) (map ?mk (j # ts))) = remaining (?mk j)"
      by (simp only: w r append_Nil2)
    have "concat (map (\<lambda>j. about x (queue_worker (Call st f # cs) j)) (j # ts))
            = about x (queue_worker (Call st f # cs) j)
              @ concat (map (\<lambda>j. about x (queue_worker (Call st f # cs) j)) ts)"
      by simp
    then have n: "concat (map (\<lambda>j. about x (queue_worker (Call st f # cs) j)) (j # ts))
            = Invoke st j # remaining (?mk j)"
      by (simp only: t h append_Nil2)
    show ?thesis by (simp only: l m n append_Cons append_Nil)
  next
    case False
    from Cons.prems have "distinct (map job_id ts)" by simp
    note ih = Cons.IH [OF this]
    have h: "about x (queue_worker (Call st f # cs) j) = []"
      using False by (simp add: series_about [OF ks] del: queue_worker.simps)
    have r: "about x (remaining (?mk j)) = []" using rem False by simp
    have l: "about x (map (Invoke st) (j # ts)) = about x (map (Invoke st) ts)"
      using False by auto
    have m: "concat (map (\<lambda>w. about x (remaining w)) (map ?mk (j # ts)))
            = concat (map (\<lambda>w. about x (remaining w)) (map ?mk ts))"
      by (simp add: r del: about_simps)
    have n: "concat (map (\<lambda>j. about x (queue_worker (Call st f # cs) j)) (j # ts))
            = concat (map (\<lambda>j. about x (queue_worker (Call st f # cs) j)) ts)"
      by (simp add: h del: about_simps queue_worker.simps)
    show ?thesis by (simp only: l m n ih)
  qed
qed

lemma about_invokes_silent:
  "\<forall>j \<in> set ts. job_id j \<noteq> x \<Longrightarrow> about x (map (Invoke st) ts) = []"
  by (induction ts) simp_all

lemma process_tidy:
  assumes "tidy s"
  shows "tidy (process s)"
proof (cases "q_paused (queue s) \<or> uncaught s \<noteq> None
      \<or> min (concurrency (queue s) - length (workers (queue s))) (length (tasks (queue s))) = 0")
  case True
  then have "process s = s" by (auto simp: process_def Let_def)
  with assms show ?thesis by simp
next
  case False
  from assms have o: "in_order (process s)" by (simp add: tidy_def process_in_order)
  show ?thesis
  proof (cases "pipeline s")
    case Nil
    then show ?thesis using pipeline_nonempty by simp
  next
    case (Cons c cs)
    show ?thesis
    proof (cases c)
      case (Call st f)
      with Cons have p: "pipeline s = Call st f # cs" by simp
      from False have np: "\<not> q_paused (queue s)" "uncaught s = None" by auto
      define n where "n = min (concurrency (queue s) - length (workers (queue s))) (length (tasks (queue s)))"
      have ps: "process s = s\<lparr> queue := (queue s)\<lparr>
          workers := workers (queue s) @
            map (\<lambda>j. \<lparr> w_job = j, w_stage = st, w_call = f, w_later = cs \<rparr>) (take n (tasks (queue s))),
          tasks := drop n (tasks (queue s)) \<rparr>,
          trace := trace s @ map (Invoke st) (take n (tasks (queue s))) \<rparr>"
        unfolding n_def by (rule process_start [OF p np])
      have "map job_id (take n (tasks (queue s))) @ map job_id (drop n (tasks (queue s)))
              = map job_id (tasks (queue s))"
        by (simp only: map_append [symmetric] append_take_drop_id)
      then have "distinct (map (job_id \<circ> w_job) (workers (queue (process s)))
                   @ map job_id (tasks (queue (process s))))"
        using assms by (simp add: ps tidy_def comp_def)
      with o assms show ?thesis by (simp add: tidy_def)
    next
      case (Throws st err)
      with Cons False have "process s = s\<lparr> uncaught := Some err \<rparr>"
        by (simp add: process_def Let_def)
      with assms show ?thesis by (simp add: tidy_def in_order_def)
    qed
  qed
qed

lemma process_story:
  assumes "tidy s"
  shows "story x (process s) = story x s"
proof (cases "q_paused (queue s) \<or> uncaught s \<noteq> None
      \<or> min (concurrency (queue s) - length (workers (queue s))) (length (tasks (queue s))) = 0")
  case True
  then have "process s = s" by (auto simp: process_def Let_def)
  then show ?thesis by simp
next
  case False
  show ?thesis
  proof (cases "pipeline s")
    case Nil
    then show ?thesis using pipeline_nonempty by simp
  next
    case (Cons c cs)
    show ?thesis
    proof (cases c)
      case (Call st f)
      with Cons have p: "pipeline s = Call st f # cs" by simp
      from False have np: "\<not> q_paused (queue s)" "uncaught s = None" by auto
      define n where "n = min (concurrency (queue s) - length (workers (queue s))) (length (tasks (queue s)))"
      define T1 where "T1 = take n (tasks (queue s))"
      define T2 where "T2 = drop n (tasks (queue s))"
      define ws where "ws = workers (queue s)"
      let ?mk = "\<lambda>j. \<lparr> w_job = j, w_stage = st, w_call = f, w_later = cs \<rparr>"
      let ?g = "\<lambda>w. about x (remaining w)"
      let ?h = "\<lambda>j. about x (queue_worker (Call st f # cs) j)"
      have ps: "process s = s\<lparr> queue := (queue s)\<lparr> workers := ws @ map ?mk T1, tasks := T2 \<rparr>,
          trace := trace s @ map (Invoke st) T1 \<rparr>"
        unfolding n_def T1_def T2_def ws_def by (rule process_start [OF p np])
      have ts: "tasks (queue s) = T1 @ T2" by (simp add: T1_def T2_def)
      from assms p have k: "keeps_id f" "list_all keeps cs" by (simp_all add: tidy_def)
      from assms have d: "distinct (map (job_id \<circ> w_job) ws @ map job_id T1 @ map job_id T2)"
        by (simp add: tidy_def ts ws_def)
      then have d1: "distinct (map job_id T1)" by simp
      note start = tasks_start [OF k d1, of x st]
      have cw: "\<forall>w \<in> set ws. keeps_id (w_call w) \<and> list_all keeps (w_later w)"
        using tidy_worker [OF assms] by (simp add: ws_def)
      have swap: "about x (map (Invoke st) T1) @ concat (map ?g ws) @ concat (map ?g (map ?mk T1))
                  = concat (map ?g ws) @ concat (map ?h T1)"
      proof (cases "x \<in> job_id ` set T1")
        case True
        with d have "\<forall>w \<in> set ws. job_id (w_job w) \<noteq> x" by (auto simp: image_iff)
        with cw have e: "concat (map ?g ws) = []" by (rule silent)
        show ?thesis by (simp only: e append_Nil start)
      next
        case False
        then have "\<forall>j \<in> set T1. job_id j \<noteq> x" by auto
        then have e: "about x (map (Invoke st) T1) = []" by (rule about_invokes_silent)
        from start have "concat (map ?g (map ?mk T1)) = concat (map ?h T1)"
          by (simp only: e append_Nil)
        then show ?thesis by (simp only: e append_Nil)
      qed
      have "story x (process s)
              = about x (trace s) @ (about x (map (Invoke st) T1) @ concat (map ?g ws)
                  @ concat (map ?g (map ?mk T1))) @ concat (map ?h T2)"
        by (simp add: story_def ps p del: queue_worker.simps about_simps(2))
      also have "\<dots> = about x (trace s) @ (concat (map ?g ws) @ concat (map ?h T1)) @ concat (map ?h T2)"
        by (simp only: swap)
      also have "\<dots> = story x s"
        by (simp add: story_def p ts ws_def del: queue_worker.simps about_simps(2))
      finally show ?thesis .
    next
      case (Throws st err)
      with Cons False have "process s = s\<lparr> uncaught := Some err \<rparr>"
        by (simp add: process_def Let_def)
      then show ?thesis by (simp add: story_def)
    qed
  qed
qed

lemma settle_tidy: "tidy s \<Longrightarrow> tidy (settle s)"
  by (simp add: tidy_def settle_in_order)

lemma settle_story: "story x (settle s) = story x s"
  by (simp add: story_def settle_def callback_def)

lemma step_tidy_story:
  assumes "tidy s"
  shows "tidy (step k s) \<and> story x (step k s) = story x s"
proof (cases "workers (queue s) = [] \<or> uncaught s \<noteq> None")
  case True
  then have "step k s = s" by (auto simp: step_def Let_def)
  with assms show ?thesis by simp
next
  case False
  then have ws: "workers (queue s) \<noteq> []" and u: "uncaught s = None" by auto
  from assms have o: "in_order s" and pk: "list_all keeps (pipeline s)"
    and d: "distinct (map (job_id \<circ> w_job) (workers (queue s)) @ map job_id (tasks (queue s)))"
    by (simp_all add: tidy_def)
  have cw: "\<forall>w \<in> set (workers (queue s)). keeps_id (w_call w) \<and> list_all keeps (w_later w)"
    using tidy_worker [OF assms] by simp
  let ?g = "\<lambda>w. about x (remaining w)"
  from ws u show ?thesis
  proof (cases rule: step_cases [where k = k])
    case (advance i j' e st f cs)
    define w where "w = workers (queue s) ! i"
    define pre where "pre = take i (workers (queue s))"
    define post where "post = drop (Suc i) (workers (queue s))"
    let ?w' = "\<lparr> w_job = j', w_stage = st, w_call = f, w_later = cs \<rparr>"
    have dec: "workers (queue s) = pre @ w # post"
      unfolding pre_def post_def w_def by (rule id_take_nth_drop [OF advance(1)])
    have upd: "list_update (workers (queue s)) i ?w' = pre @ ?w' # post"
      unfolding pre_def post_def by (rule upd_conv_take_nth_drop [OF advance(1)])
    have win: "w \<in> set (workers (queue s))" by (simp add: dec)
    with cw have kw: "keeps_id (w_call w)" "list_all keeps (w_later w)" by simp_all
    from advance(2) have call: "w_call w (w_job w) = (j', e)" by (simp add: w_def)
    from advance(4) have later: "w_later w = Call st f # cs" by (simp add: w_def)
    from kw(1) call have id: "job_id j' = job_id (w_job w)"
      by (auto simp: keeps_id_def dest: spec [of _ "w_job w"])
    from kw(2) later have kf: "keeps_id f" "list_all keeps cs" by simp_all
    have rem: "remaining w = Invoke st j' # remaining ?w'"
      using call advance(3) later by (simp add: remaining_def split: prod.splits)
    have sub: "subject (Invoke st j') = Some (job_id (w_job w))" by (simp add: id)
    have r': "about x (remaining ?w') = (if x = job_id (w_job w) then remaining ?w' else [])"
      using remaining_about [of ?w' x] kf id by simp
    have cw': "\<forall>v \<in> set (pre @ w # post). keeps_id (w_call v) \<and> list_all keeps (w_later v)"
      using cw by (simp only: dec)
    have dw: "distinct (map (job_id \<circ> w_job) (pre @ w # post))" using d by (auto simp: dec)
    note mv = worker_moves [OF cw' dw rem sub r']
    have st: "story x (step k s) = story x s"
      unfolding story_def advance(5)
      by (simp add: upd del: about_simps(2)) (simp only: dec mv [symmetric] append_assoc)
    have ids: "map (job_id \<circ> w_job) (pre @ ?w' # post) = map (job_id \<circ> w_job) (pre @ w # post)"
      by (simp add: id)
    have wq: "workers (queue (step k s)) = pre @ ?w' # post" unfolding advance(5) by (simp add: upd)
    have tq: "tasks (queue (step k s)) = tasks (queue s)" unfolding advance(5) by simp
    have "distinct (map (job_id \<circ> w_job) (workers (queue (step k s)))
             @ map job_id (tasks (queue (step k s))))"
      using d by (simp only: wq tq ids dec)
    with step_in_order [OF o, of k] pk st show ?thesis by (simp add: tidy_def)
  next
    case (finish i a)
    define w where "w = workers (queue s) ! i"
    define pre where "pre = take i (workers (queue s))"
    define post where "post = drop (Suc i) (workers (queue s))"
    let ?s2 = "s\<lparr> trace := trace s @ [a], queue := (queue s)\<lparr> workers := pre @ post \<rparr> \<rparr>"
    have dec: "workers (queue s) = pre @ w # post"
      unfolding pre_def post_def w_def by (rule id_take_nth_drop [OF finish(1)])
    have eq: "step k s = process (settle ?s2)" unfolding pre_def post_def by (rule finish(5))
    have win: "w \<in> set (workers (queue s))" by (simp add: dec)
    with cw have kw: "keeps_id (w_call w)" "list_all keeps (w_later w)" by simp_all
    from finish(2) have rem: "remaining w = a # []" by (simp add: w_def)
    then have "a \<in> set (remaining w)" by simp
    with kw have sub: "subject a = Some (job_id (w_job w))" by (rule remaining_subject)
    have r': "about x [] = (if x = job_id (w_job w) then [] else [])" by simp
    have cw': "\<forall>v \<in> set (pre @ w # post). keeps_id (w_call v) \<and> list_all keeps (w_later v)"
      using cw by (simp only: dec)
    have dw: "distinct (map (job_id \<circ> w_job) (pre @ w # post))" using d by (auto simp: dec)
    note mv = worker_moves [OF cw' dw rem sub r']
    have t2: "tidy ?s2"
      using o pk d unfolding tidy_def in_order_def by (simp add: dec)
    have s2: "story x ?s2 = story x s"
      unfolding story_def
      by (simp del: about_simps(2)) (simp only: dec mv [symmetric] append_assoc about_simps(1) append_Nil)
    have "tidy (step k s)" unfolding eq by (intro process_tidy settle_tidy t2)
    moreover have "story x (step k s) = story x s"
      unfolding eq by (simp only: process_story [OF settle_tidy [OF t2]] settle_story s2)
    ultimately show ?thesis ..
  next
    case (throws i st err cs)
    with assms show ?thesis by (simp add: tidy_def in_order_def story_def)
  qed
qed

lemma exec_tidy_story:
  "tidy s \<Longrightarrow> tidy (exec sched s) \<and> story x (exec sched s) = story x s"
proof (induction sched arbitrary: s)
  case Nil
  then show ?case by simp
next
  case (Cons k sched)
  from step_tidy_story [OF Cons.prems, of k x] Cons.IH [of "step k s"] show ?case by simp
qed

lemma own_story:
  assumes "list_all keeps cs"
  shows "distinct (map job_id ts) \<Longrightarrow> j \<in> set ts \<Longrightarrow>
     concat (map (\<lambda>j'. about (job_id j) (queue_worker cs j')) ts) = queue_worker cs j"
proof (induction ts)
  case Nil
  then show ?case by simp
next
  case (Cons t ts)
  show ?case
  proof (cases "t = j")
    case True
    with Cons.prems have "\<forall>j' \<in> set ts. job_id j' \<noteq> job_id j" by (auto simp: image_iff)
    with assms have "concat (map (\<lambda>j'. about (job_id j) (queue_worker cs j')) ts) = []"
      by (rule silent_tasks)
    then show ?thesis using True
      by (simp add: series_about [OF assms] del: queue_worker.simps concat_eq_Nil_conv)
  next
    case False
    with Cons.prems have in_ts: "j \<in> set ts" and d: "distinct (map job_id ts)" by simp_all
    with Cons.prems have "job_id t \<noteq> job_id j" by (auto simp: image_iff)
    then have "about (job_id j) (queue_worker cs t) = []"
      by (simp add: series_about [OF assms] del: queue_worker.simps)
    with Cons.IH [OF d in_ts] show ?thesis by simp
  qed
qed

lemma run_tidy_story:
  assumes "idle s" "engine s = Some fetch" "keeps_id fetch"
    "series (before_mws (middlewares s)) = None"
    "distinct (map job_id (tasks (queue s)))" "j \<in> set (tasks (queue s))"
  shows "tidy (Scraper_run s)"
    and "story (job_id j) (Scraper_run s) = queue_worker (pipeline s) j"
proof -
  from assms(1) have p: "q_paused (queue s)" and w: "workers (queue s) = []"
    and t: "trace s = []" by (simp_all add: idle_def)
  let ?s1 = "s\<lparr> trace := trace s @ [Emit E_scraper_start],
               queue := (queue s)\<lparr> drain := True, q_paused := False \<rparr> \<rparr>"
  have eq: "Scraper_run s = process ?s1" by (rule run_resumes [OF assms(4) p])
  have k: "list_all keeps (pipeline s)" using assms(2,3) by (rule pipeline_keeps)
  have t1: "tidy ?s1" using w k assms(5) by (simp add: tidy_def in_order_def)
  show "tidy (Scraper_run s)" unfolding eq using t1 by (rule process_tidy)
  have "story (job_id j) ?s1 = queue_worker (pipeline s) j"
    using own_story [OF k assms(5,6)] by (simp add: story_def w t del: queue_worker.simps)
  then show "story (job_id j) (Scraper_run s) = queue_worker (pipeline s) j"
    unfolding eq by (simp only: process_story [OF t1])
qed

lemma run_job_prefix:
  assumes "idle s" "engine s = Some fetch" "keeps_id fetch"
    "distinct (map job_id (tasks (queue s)))" "j \<in> set (tasks (queue s))"
  shows "prefix (about (job_id j) (trace (exec sched (Scraper_run s))))
           (queue_worker (pipeline s) j)"
proof (cases "series (before_mws (middlewares s))")
  case None
  note r = run_tidy_story [OF assms(1-3) None assms(4,5)]
  from exec_tidy_story [OF r(1), of sched "job_id j"] r(2)
  have "story (job_id j) (exec sched (Scraper_run s)) = queue_worker (pipeline s) j" by simp
  then show ?thesis unfolding story_def by (metis prefixI)
next
  case (Some err)
  note r = run_failed [OF assms(1) Some]
  have "exec sched (Scraper_run s) = Scraper_run s"
    using r(2) by (induction sched) (simp_all add: step_none)
  then show ?thesis by (simp add: r(1))
qed

lemma run_job_story:
  assumes "idle s" "engine s = Some fetch" "keeps_id fetch" "0 < concurrency (queue s)"
    "series (before_mws (middlewares s)) = None"
    "distinct (map job_id (tasks (queue s)))" "j \<in> set (tasks (queue s))"
    "length (tasks (queue s)) * length (pipeline s) \<le> length sched"
  shows "about (job_id j) (trace (exec sched (Scraper_run s))) = queue_worker (pipeline s) j"
proof -
  have e: "engine s \<noteq> None" using assms(2) by simp
  have n: "tasks (queue s) \<noteq> []" using assms(7) by auto
  have c: "closed (exec sched (Scraper_run s))"
    using assms(1) e assms(4,5) n assms(8) by (rule run_completes)
  note r = run_tidy_story [OF assms(1-3) assms(5-7)]
  from exec_tidy_story [OF r(1), of sched "job_id j"] r(2)
  have "story (job_id j) (exec sched (Scraper_run s)) = queue_worker (pipeline s) j" by simp
  then show ?thesis using c by (simp add: story_def closed_def)
qed

lemma series_stages:
  "prefix (invoked (queue_worker cs j)) (map stage_of cs)"
proof (induction cs j rule: queue_worker.induct)
  case (1 j)
  then show ?case by simp
next
  case (2 st f cs j)
  obtain j1 e where c: "f j = (j1, e)" by (cases "f j")
  show ?case
  proof (cases "truthy e")
    case True
    with c show ?thesis by simp
  next
    case False
    with c 2 [OF c [symmetric] False] show ?thesis by simp
  qed
next
  case (3 st err cs j)
  then show ?case by simp
qed

lemma invoked_prefix: "prefix xs ys \<Longrightarrow> prefix (invoked xs) (invoked ys)"
  by (auto simp: prefix_def invoked_append)

lemma after_stages:
  "map stage_of (afterScraping s)
     = map AfterScraping_mw [0..<length (afterScraping_mws (middlewares s))]"
  by (rule nth_equalityI) (simp_all add: afterScraping_def nth_enumerate_eq split_def)

lemma pipeline_stages:
  "map stage_of (pipeline s)
     = map BeforeScraping_mw [0..<length (beforeScraping_mws (middlewares s))]
       @ Engine_fetch # map AfterScraping_mw [0..<length (afterScraping_mws (middlewares s))]"
  by (simp add: pipeline_def before_stages after_stages scrape_def split: option.splits)

lemma demo_tasks: "tasks (queue demo) = [demo_job, demo_job\<lparr> job_id := ''Job[b]'', original := JStr ''http://b'', req := (req demo_job)\<lparr> url := Some (JStr ''http://b'') \<rparr> \<rparr>]"
  by (simp add: demo_simps demo_job_def)

lemma demo_keeps: "keeps_id demo_fetch"
  by (simp add: keeps_id_def demo_fetch_def)

lemma demo_distinct: "distinct (map job_id (tasks (queue demo)))"
  by (simp add: demo_tasks demo_job_def)

lemma demo_member: "demo_job \<in> set (tasks (queue demo))"
  by (simp add: demo_tasks)

lemma demo_running:
  "map w_stage (workers (queue (exec [1] (Scraper_run demo)))) = [Engine_fetch]"
  using demo_idle
  by (simp add: run_resumes demo_queue idle_def process_def Let_def demo_pipeline demo_tasks
        step_def finish_def settle_def emit_def demo_fetch_def demo_job_def)

lemma run_job_actions:
  assumes "idle s" "engine s \<noteq> None" "0 < concurrency (queue s)"
    "series (before_mws (middlewares s)) = None" "tasks (queue s) \<noteq> []"
    "length (tasks (queue s)) * length (pipeline s) \<le> length sched"
  shows "mset (filter is_job_action (trace (exec sched (Scraper_run s))))
           = (\<Sum>j\<leftarrow>tasks (queue s). mset (queue_worker (pipeline s) j))"
proof -
  have c: "closed (exec sched (Scraper_run s))" using assms by (rule run_completes)
  have "expected (exec sched (Scraper_run s)) = expected (Scraper_run s)" by (rule exec_expected)
  then show ?thesis
    by (simp only: closed_expected [OF c] run_expected [OF assms(1,4)])
qed

lemma sum_mset_member:
  "x \<in> set xs \<Longrightarrow> a \<in> set (f x) \<Longrightarrow> a \<in># (\<Sum>x\<leftarrow>xs. mset (f x))"
  by (induction xs) auto

lemma prefix_invoked_notin:
  assumes "prefix xs ys" "st \<notin> set (invoked ys)"
  shows "st \<notin> set (invoked xs)"
  using assms by (auto simp: prefix_def invoked_append)

lemma demo_denied_facts:
  "idle demo_denied"
  "before_mws (middlewares demo_denied) = [JNull] @ JStr ''denied'' # [JStr ''late'']"
  "listeners demo_denied = [(''job:fail'', 7), (''job:success'', 7)]"
  "length (tasks (queue demo_denied)) = 2"
  using demo_idle
  by (simp_all add: demo_denied_def Scraper_result_def idle_def demo_queue)
     (simp add: demo_simps)

lemma demo_guarded_facts:
  "idle demo_guarded" "engine demo_guarded = Some demo_fetch"
  "tasks (queue demo_guarded) = tasks (queue demo)"
  "concurrency (queue demo_guarded) = 2"
  "before_mws (middlewares demo_guarded) = []"
  "length (pipeline demo_guarded) = 3"
  using demo_idle
  by (simp_all add: demo_guarded_def idle_def demo_queue pipeline_def beforeScraping_def
        scrape_def afterScraping_def)

section \<open>Helper lemmas: the outcome of one job and of a run\<close>

text \<open>
  What the worker does for one job, by the first call that calls back with an error:
  a \<^verbatim>\<open>beforeScraping\<close> middleware, the engine, an \<^verbatim>\<open>afterScraping\<close> middleware,
  or none of them.
\<close>

lemma after_nth:
  "k < length (afterScraping_mws (middlewares s)) \<Longrightarrow>
     afterScraping s ! k
       = Call (AfterScraping_mw k)
           (\<lambda>j. case (afterScraping_mws (middlewares s) ! k) (req j) (res j) of
                   ((r, rs), e) \<Rightarrow> (j\<lparr> req := r, res := rs \<rparr>, e))"
  by (simp add: afterScraping_def nth_enumerate_eq)

lemma beforeScraping_fails:
  assumes "i < length (beforeScraping_mws (middlewares s))"
    and "queue_worker (take i (beforeScraping s)) j = acts @ [Emit (E_job_success j1)]"
    and "(beforeScraping_mws (middlewares s) ! i) (req j1) = (r, e)"
    and "truthy e"
  shows "queue_worker (pipeline s) j
           = acts @ [Invoke (BeforeScraping_mw i) j1,
                     Emit (E_job_fail e (set_error e (j1\<lparr> req := r \<rparr>)))]"
proof -
  let ?bs = "beforeScraping s"
  have len: "i < length ?bs" using assms(1) by (simp add: beforeScraping_def)
  have unroll: "pipeline s = take i ?bs @ (?bs ! i # drop (Suc i) ?bs @ scrape s @ afterScraping s)"
    using id_take_nth_drop [OF len] by (simp add: pipeline_def)
  show ?thesis
    unfolding unroll series_continues [OF assms(2)]
    by (simp add: before_nth [OF assms(1)] assms(3,4))
qed

lemma engine_fails:
  assumes "engine s = Some fetch"
    and "queue_worker (beforeScraping s) j = acts @ [Emit (E_job_success j1)]"
    and "fetch j1 = (j2, e)"
    and "truthy e"
  shows "queue_worker (pipeline s) j
           = acts @ [Invoke Engine_fetch j1, Emit (E_job_fail e (set_error e j2))]"
  unfolding pipeline_def series_continues [OF assms(2)]
  using assms(1,3,4) by (simp add: scrape_def)

lemma engine_passes:
  assumes "engine s = Some fetch"
    and "queue_worker (beforeScraping s) j = acts @ [Emit (E_job_success j1)]"
    and "fetch j1 = (j2, e0)"
    and "\<not> truthy e0"
  shows "queue_worker (pipeline s) j
           = acts @ Invoke Engine_fetch j1 # queue_worker (afterScraping s) j2"
  unfolding pipeline_def series_continues [OF assms(2)]
  using assms(1,3,4) by (simp add: scrape_def)

lemma afterScraping_fails:
  assumes "engine s = Some fetch"
    and "queue_worker (beforeScraping s) j = acts @ [Emit (E_job_success j1)]"
    and "fetch j1 = (j2, e0)"
    and "\<not> truthy e0"
    and "k < length (afterScraping_mws (middlewares s))"
    and "queue_worker (take k (afterScraping s)) j2 = acts' @ [Emit (E_job_success j3)]"
    and "(afterScraping_mws (middlewares s) ! k) (req j3) (res j3) = ((r, rs), e)"
    and "truthy e"
  shows "queue_worker (pipeline s) j
           = acts @ Invoke Engine_fetch j1 # acts'
             @ [Invoke (AfterScraping_mw k) j3,
                Emit (E_job_fail e (set_error e (j3\<lparr> req := r, res := rs \<rparr>)))]"
proof -
  let ?as = "afterScraping s"
  have len: "k < length ?as" using assms(5) by (simp add: afterScraping_def)
  have unroll: "?as = take k ?as @ (?as ! k # drop (Suc k) ?as)"
    using id_take_nth_drop [OF len] by simp
  have "queue_worker ?as j2 = queue_worker (take k ?as @ (?as ! k # drop (Suc k) ?as)) j2"
    using unroll by simp
  also have "\<dots> = acts' @ queue_worker (?as ! k # drop (Suc k) ?as) j3"
    using assms(6) by (rule series_continues)
  also have "\<dots> = acts' @ [Invoke (AfterScraping_mw k) j3,
                Emit (E_job_fail e (set_error e (j3\<lparr> req := r, res := rs \<rparr>)))]"
    by (simp add: after_nth [OF assms(5)] assms(7,8))
  finally show ?thesis
    unfolding engine_passes [OF assms(1-4)] by simp
qed

lemma stages_pass:
  assumes "engine s = Some fetch"
    and "queue_worker (beforeScraping s) j = acts @ [Emit (E_job_success j1)]"
    and "fetch j1 = (j2, e0)"
    and "\<not> truthy e0"
    and "queue_worker (afterScraping s) j2 = acts' @ [Emit (E_job_success j3)]"
  shows "queue_worker (pipeline s) j
           = acts @ Invoke Engine_fetch j1 # acts' @ [Emit (E_job_success j3)]"
  unfolding engine_passes [OF assms(1-4)] assms(5) by simp

lemma set_error_lookup: "lookup (res (set_error e j)) ''error'' = e"
  by (simp add: set_error_def lookup_def AList.update_conv')

lemma demo_jobs: "tasks (queue demo) = [demo_job, demo_job_b]"
  by (simp add: demo_tasks demo_job_def demo_job_b_def)

lemma demo_fetches:
  "demo_fetch demo_job = (demo_job\<lparr> res := [(''status'', JNum 200)] \<rparr>, JNull)"
  "demo_fetch demo_job_b = (demo_job_b, JStr ''unreachable'')"
  "queue_worker (beforeScraping demo) j = [] @ [Emit (E_job_success j)]"
  "queue_worker (afterScraping demo) j = [] @ [Emit (E_job_success j)]"
  by (simp_all add: demo_fetch_def demo_job_def demo_job_b_def beforeScraping_def
        afterScraping_def demo_queue)

lemma demo_trace:
  "trace (exec [1, 0] (Scraper_run demo))
     = [Emit E_scraper_start, Invoke Engine_fetch demo_job, Invoke Engine_fetch demo_job_b,
        Emit (E_job_fail (JStr ''unreachable'') (set_error (JStr ''unreachable'') demo_job_b)),
        Emit (E_job_success (demo_job\<lparr> res := [(''status'', JNum 200)] \<rparr>)),
        Callback JNull, Emit E_scraper_success, Emit (E_scraper_end ''success''),
        Emit E_scraper_teardown]"
  using demo_idle
  by (simp add: run_resumes demo_queue idle_def process_def Let_def demo_pipeline demo_jobs
        step_def finish_def settle_def emit_def callback_def demo_fetches exec_def
        Scraper_succeed_def Scraper_exit_def Scraper_teardown_def kill_def)

lemma demo_empty_mounted:
  "engine demo_empty = Some demo_fetch" "concurrency (queue demo_empty) = 2"
  "\<not> fulfilled (state demo_empty)"
  by (simp_all add: demo_empty_def mount_def Scraper_def Let_def demo_world_def js_or_def
        lookup_def defaults_def)

text \<open>
  The three ways a run goes on after \<^verbatim>\<open>scraper:start\<close>, whatever is scheduled: the
  \<^verbatim>\<open>before\<close> series fails and the completion callback is called with the error;
  the series succeeds with jobs in the queue, and the callback is called with
  \<^verbatim>\<open>null\<close> once the last job has returned, not before and not twice; the series
  succeeds with an empty queue, and nothing more happens: the drain callback stays
  installed and is not called.
\<close>

lemma run_outcomes:
  assumes "idle s"
  shows "(series (before_mws (middlewares s)) = Some err \<longrightarrow>
            filter (\<lambda>a. \<not> is_job_action a) (trace (exec sched (Scraper_run s)))
              = [Emit E_scraper_start, Callback err, Emit (E_scraper_fail err),
                 Emit (E_scraper_end ''fail''), Emit E_scraper_teardown])
       \<and> (series (before_mws (middlewares s)) = None \<and> engine s \<noteq> None
            \<and> 0 < concurrency (queue s) \<and> tasks (queue s) \<noteq> [] \<longrightarrow>
            (filter (\<lambda>a. \<not> is_job_action a) (trace (exec sched (Scraper_run s)))
               = [Emit E_scraper_start]
             \<and> workers (queue (exec sched (Scraper_run s))) \<noteq> []
             \<or> filter (\<lambda>a. \<not> is_job_action a) (trace (exec sched (Scraper_run s)))
               = [Emit E_scraper_start, Callback JNull, Emit E_scraper_success,
                  Emit (E_scraper_end ''success''), Emit E_scraper_teardown])
            \<and> (length (tasks (queue s)) * length (pipeline s) \<le> length sched \<longrightarrow>
                 filter (\<lambda>a. \<not> is_job_action a) (trace (exec sched (Scraper_run s)))
                   = [Emit E_scraper_start, Callback JNull, Emit E_scraper_success,
                      Emit (E_scraper_end ''success''), Emit E_scraper_teardown]))
       \<and> (series (before_mws (middlewares s)) = None \<and> tasks (queue s) = [] \<longrightarrow>
            trace (exec sched (Scraper_run s)) = [Emit E_scraper_start]
            \<and> workers (queue (exec sched (Scraper_run s))) = []
            \<and> tasks (queue (exec sched (Scraper_run s))) = []
            \<and> drain (queue (exec sched (Scraper_run s)))
            \<and> fulfilled (state (exec sched (Scraper_run s))) = fulfilled (state s))"
proof (intro conjI impI)
  assume f: "series (before_mws (middlewares s)) = Some err"
  note r = run_failed [OF assms f]
  have "exec sched (Scraper_run s) = Scraper_run s"
    using r(2) by (induction sched) (simp_all add: step_none)
  with r(1) show "filter (\<lambda>a. \<not> is_job_action a) (trace (exec sched (Scraper_run s)))
              = [Emit E_scraper_start, Callback err, Emit (E_scraper_fail err),
                 Emit (E_scraper_end ''fail''), Emit E_scraper_teardown]"
    by simp
next
  assume a: "series (before_mws (middlewares s)) = None \<and> engine s \<noteq> None
            \<and> 0 < concurrency (queue s) \<and> tasks (queue s) \<noteq> []"
  then have o: "opened (Scraper_run s)" using assms by (simp add: run_opened)
  from exec_opened [OF o, of sched]
  show "filter (\<lambda>a. \<not> is_job_action a) (trace (exec sched (Scraper_run s)))
               = [Emit E_scraper_start]
             \<and> workers (queue (exec sched (Scraper_run s))) \<noteq> []
             \<or> filter (\<lambda>a. \<not> is_job_action a) (trace (exec sched (Scraper_run s)))
               = [Emit E_scraper_start, Callback JNull, Emit E_scraper_success,
                  Emit (E_scraper_end ''success''), Emit E_scraper_teardown]"
  proof
    assume "opened (exec sched (Scraper_run s))"
    then show ?thesis by (simp add: opened_def)
  next
    assume "closed (exec sched (Scraper_run s))"
    from closed_lifecycle [OF this] show ?thesis by (simp add: closing_actions_def)
  qed
  assume "length (tasks (queue s)) * length (pipeline s) \<le> length sched"
  with assms a have "closed (exec sched (Scraper_run s))" by (simp add: run_completes)
  from closed_lifecycle [OF this]
  show "filter (\<lambda>a. \<not> is_job_action a) (trace (exec sched (Scraper_run s)))
                   = [Emit E_scraper_start, Callback JNull, Emit E_scraper_success,
                      Emit (E_scraper_end ''success''), Emit E_scraper_teardown]"
    by (simp add: closing_actions_def)
next
  assume a: "series (before_mws (middlewares s)) = None \<and> tasks (queue s) = []"
  from assms have p: "q_paused (queue s)" and w: "workers (queue s) = []" and t: "trace s = []"
    by (simp_all add: idle_def)
  have r: "Scraper_run s = s\<lparr> trace := trace s @ [Emit E_scraper_start],
                                 queue := (queue s)\<lparr> drain := True, q_paused := False \<rparr> \<rparr>"
    using a p by (simp add: run_resumes process_idle)
  have ws: "workers (queue (Scraper_run s)) = []" by (simp add: r w)
  have e: "exec sched (Scraper_run s) = Scraper_run s"
    using ws by (induction sched) (simp_all add: step_none)
  show "trace (exec sched (Scraper_run s)) = [Emit E_scraper_start]"
    unfolding e by (simp add: r t)
  show "workers (queue (exec sched (Scraper_run s))) = []"
    unfolding e by (rule ws)
  show "tasks (queue (exec sched (Scraper_run s))) = []"
    unfolding e using a by (simp add: r)
  show "drain (queue (exec sched (Scraper_run s)))"
    unfolding e by (simp add: r)
  show "fulfilled (state (exec sched (Scraper_run s))) = fulfilled (state s)"
    unfolding e by (simp add: r)
qed

section \<open>The job factory\<close>

text \<open>
  C6, string feeds and well-formed object feeds. A well-formed object feed has a
  non-empty (truthy) url, and its data and params, when present, are mappings (any
  truthy value is kept as it is). The job then carries the feed's url, the feed's data
  and params or an empty mapping where the feed has none, no retries, and an empty
  result and state; the feed itself is kept under \<open>original\<close>.
\<close>

theorem createJob_valid_feed:
  "(feed = JStr s \<longrightarrow>
      (\<exists>j. createJob uuid feed = Inr j \<and> url (req j) = Some (JStr s)
           \<and> data (req j) = JObj [] \<and> params (req j) = JObj []
           \<and> retries (req j) = 0 \<and> res j = [] \<and> job_state j = []
           \<and> original j = feed \<and> job_id j = ''Job['' @ uuid @ '']''))
   \<and> (feed = JObj ps \<and> map_of ps ''url'' = Some u \<and> truthy u
        \<and> (\<forall>d. map_of ps ''data'' = Some d \<longrightarrow> truthy d)
        \<and> (\<forall>p. map_of ps ''params'' = Some p \<longrightarrow> truthy p) \<longrightarrow>
      (\<exists>j. createJob uuid feed = Inr j \<and> url (req j) = Some u
           \<and> data (req j) = (case map_of ps ''data'' of None \<Rightarrow> JObj [] | Some d \<Rightarrow> d)
           \<and> params (req j) = (case map_of ps ''params'' of None \<Rightarrow> JObj [] | Some p \<Rightarrow> p)
           \<and> retries (req j) = 0 \<and> res j = [] \<and> job_state j = []
           \<and> original j = feed \<and> job_id j = ''Job['' @ uuid @ '']''))"
  by (auto simp: createJob_def Let_def js_or_def split: option.splits)

theorem createJob_valid_feed_witness:
  "(\<exists>j. createJob ''u1'' (JStr ''http://a'') = Inr j \<and> url (req j) = Some (JStr ''http://a'')
        \<and> data (req j) = JObj [] \<and> params (req j) = JObj []
        \<and> retries (req j) = 0 \<and> res j = [] \<and> job_state j = []
        \<and> original j = JStr ''http://a'' \<and> job_id j = ''Job[u1]'')
   \<and> (\<exists>j. createJob ''u2'' (JObj [(''url'', JStr ''http://b''), (''data'', JObj [(''page'', JNum 2)])])
            = Inr j
        \<and> url (req j) = Some (JStr ''http://b'')
        \<and> data (req j) = JObj [(''page'', JNum 2)] \<and> params (req j) = JObj []
        \<and> retries (req j) = 0 \<and> res j = [] \<and> job_state j = []
        \<and> job_id j = ''Job[u2]'')"
  using createJob_valid_feed [of "JStr ''http://a''" "''http://a''" "''u1''" "[]" JUndefined]
    createJob_valid_feed [of "JObj [(''url'', JStr ''http://b''), (''data'', JObj [(''page'', JNum 2)])]"
      "[]" "''u2''" "[(''url'', JStr ''http://b''), (''data'', JObj [(''page'', JNum 2)])]"
      "JStr ''http://b''"]
  by auto

text \<open>
  C7, an object feed without a url property: \<open>createJob\<close> raises the error whose
  message says that no url was provided, so no job comes back.
\<close>

theorem createJob_no_url:
  "map_of ps ''url'' = None \<Longrightarrow>
     createJob uuid (JObj ps)
       = Inl (Error ''sandcrawler.scraper.url(s)/addUrl(s): no url provided.'')"
  by (simp add: createJob_def Let_def)

theorem createJob_no_url_witness:
  "map_of ([] :: (string \<times> jsval) list) ''url'' = None
   \<and> createJob ''u'' (JObj [])
       = Inl (Error ''sandcrawler.scraper.url(s)/addUrl(s): no url provided.'')"
  using createJob_no_url [of "[]" "''u''"] by simp

text \<open>
  C8 as stated fails: a feed whose timeout is present and falsy, here 0, yields a job
  without a timeout, because line 128 tests the value and not its presence.
\<close>

theorem createJob_timeout_zero_counterexample:
  "map_of [(''url'', JStr ''http://a''), (''timeout'', JNum 0)] ''timeout'' = Some (JNum 0)
   \<and> (\<exists>j. createJob ''u'' (JObj [(''url'', JStr ''http://a''), (''timeout'', JNum 0)]) = Inr j
          \<and> timeout (req j) = None)"
  by (simp add: createJob_def Let_def js_or_def)

text \<open>
  C8 amended: for an object feed with a truthy url, the job's timeout is the feed's
  timeout when that value is truthy, and is left unset when the feed has no timeout or
  a falsy one.
\<close>

theorem createJob_timeout:
  "truthy (property (JObj ps) ''url'') \<Longrightarrow>
     \<exists>j. createJob uuid (JObj ps) = Inr j
        \<and> timeout (req j) =
            (case map_of ps ''timeout'' of
               None \<Rightarrow> None
             | Some t \<Rightarrow> if truthy t then Some t else None)"
  by (auto simp: createJob_def Let_def split: option.splits)

theorem createJob_timeout_witness:
  "truthy (property (JObj [(''url'', JStr ''http://a''), (''timeout'', JNum 500)]) ''url'')
   \<and> (\<exists>j. createJob ''u'' (JObj [(''url'', JStr ''http://a''), (''timeout'', JNum 500)]) = Inr j
          \<and> timeout (req j) = Some (JNum 500))"
  using createJob_timeout [of "[(''url'', JStr ''http://a''), (''timeout'', JNum 500)]" "''u''"]
  by simp

section \<open>The lifecycle of a run\<close>

text \<open>
  C1. When a \<^verbatim>\<open>before\<close> middleware calls back with an error (the ones listed before
  it having succeeded, the ones after it never run), then whatever is scheduled
  afterwards the log of the run is: \<^verbatim>\<open>scraper:start\<close>, the completion callback
  with that error (line 176 calls it before \<^verbatim>\<open>fail\<close>), \<^verbatim>\<open>scraper:fail\<close> with
  that error, \<^verbatim>\<open>scraper:end\<close> with status fail, \<^verbatim>\<open>scraper:teardown\<close>. No call
  is made for any job, no worker is busy, the waiting tasks are dropped, the queue is
  still paused, no drain callback is installed, and the listeners are gone.
\<close>

theorem before_failure:
  assumes "idle s"
    and "before_mws (middlewares s) = pre @ e # post"
    and "\<forall>x \<in> set pre. \<not> truthy x"
    and "truthy e"
  shows "trace (exec sched (Scraper_run s))
           = [Emit E_scraper_start, Callback e, Emit (E_scraper_fail e),
              Emit (E_scraper_end ''fail''), Emit E_scraper_teardown]
         \<and> workers (queue (exec sched (Scraper_run s))) = []
         \<and> tasks (queue (exec sched (Scraper_run s))) = []
         \<and> q_paused (queue (exec sched (Scraper_run s)))
         \<and> \<not> drain (queue (exec sched (Scraper_run s)))
         \<and> listeners (exec sched (Scraper_run s)) = []
         \<and> fulfilled (state (exec sched (Scraper_run s)))
         \<and> \<not> running (state (exec sched (Scraper_run s)))"
proof -
  have f: "series (before_mws (middlewares s)) = Some e"
    unfolding assms(2) using assms(3,4) by (rule series_first)
  note r = run_failed [OF assms(1) f]
  have "exec sched (Scraper_run s) = Scraper_run s"
    using r(2) by (induction sched) (simp_all add: step_none)
  with r show ?thesis by simp
qed

theorem before_failure_witness:
  "idle demo_denied
   \<and> before_mws (middlewares demo_denied) = [JNull] @ JStr ''denied'' # [JStr ''late'']
   \<and> truthy (JStr ''denied'') \<and> \<not> truthy JNull
   \<and> listeners demo_denied = [(''job:fail'', 7), (''job:success'', 7)]
   \<and> length (tasks (queue demo_denied)) = 2
   \<and> trace (exec [0, 1] (Scraper_run demo_denied))
        = [Emit E_scraper_start, Callback (JStr ''denied''), Emit (E_scraper_fail (JStr ''denied'')),
           Emit (E_scraper_end ''fail''), Emit E_scraper_teardown]
   \<and> tasks (queue (exec [0, 1] (Scraper_run demo_denied))) = []
   \<and> q_paused (queue (exec [0, 1] (Scraper_run demo_denied)))
   \<and> listeners (exec [0, 1] (Scraper_run demo_denied)) = []"
proof -
  have p: "\<forall>x \<in> set [JNull]. \<not> truthy x" by simp
  have t: "truthy (JStr ''denied'')" by simp
  from before_failure [OF demo_denied_facts(1,2) p t, of "[0, 1]"] demo_denied_facts
  show ?thesis by simp
qed

text \<open>
  C2. Take a run whose \<^verbatim>\<open>before\<close> middlewares succeed, with an engine mounted, a
  positive worker bound and at least one job, and any schedule long enough for every
  call to call back.

  A job whose pipeline produces an error: if for a pushed job a \<^verbatim>\<open>beforeScraping\<close>
  middleware calls back with the truthy error \<open>e\<close> (the ones before it having passed),
  or the engine's \<^verbatim>\<open>fetch\<close> does (the \<^verbatim>\<open>beforeScraping\<close> middlewares having
  passed), or an \<^verbatim>\<open>afterScraping\<close> middleware does (everything before it having
  passed), then the log holds \<^verbatim>\<open>job:fail\<close> with \<open>e\<close> and the job as that call left
  it, whose \<open>res\<close> holds \<open>e\<close> under \<^verbatim>\<open>error\<close>; and the part of the log about the
  job is the calls up to the failing one followed by that \<^verbatim>\<open>job:fail\<close>, so there
  is no \<^verbatim>\<open>job:success\<close> for it and no later call.

  Every other job: if all the calls of a pushed job call back without an error, the
  log holds \<^verbatim>\<open>job:success\<close> with the job, after all its calls, whatever the other
  jobs did. In general the job actions in the log are, counted with multiplicity,
  those that each job's own pipeline gives when the job is taken alone, and the part
  of the log about a job is exactly what its own pipeline gives, in that order: what
  one job does, and whether it fails, depends neither on the other jobs nor on the
  schedule. The statements about the part of the log about one job need the engine to
  keep the identifier of the jobs, and the identifiers to be distinct. Every
  \<^verbatim>\<open>job:fail\<close> in the log carries a truthy error and a job whose \<open>res\<close> holds that
  error under \<^verbatim>\<open>error\<close>.

  The run: whether or not some job failed, the lifecycle actions are
  \<^verbatim>\<open>scraper:start\<close>, the completion callback with \<^verbatim>\<open>null\<close>,
  \<^verbatim>\<open>scraper:success\<close>, \<^verbatim>\<open>scraper:end\<close> with status success and
  \<^verbatim>\<open>scraper:teardown\<close>, the last four at the very end of the log.
\<close>

theorem job_errors_isolated:
  assumes "idle s" "engine s = Some fetch" "0 < concurrency (queue s)"
    "series (before_mws (middlewares s)) = None" "tasks (queue s) \<noteq> []"
    "length (tasks (queue s)) * length (pipeline s) \<le> length sched"
  shows "mset (filter is_job_action (trace (exec sched (Scraper_run s))))
           = (\<Sum>j\<leftarrow>tasks (queue s). mset (queue_worker (pipeline s) j))
         \<and> (\<forall>j \<in> set (tasks (queue s)).
               set (queue_worker (pipeline s) j) \<subseteq> set (trace (exec sched (Scraper_run s))))
         \<and> (keeps_id fetch \<and> distinct (map job_id (tasks (queue s))) \<longrightarrow>
              (\<forall>j \<in> set (tasks (queue s)).
                 about (job_id j) (trace (exec sched (Scraper_run s)))
                   = queue_worker (pipeline s) j))
         \<and> (\<forall>e j'. Emit (E_job_fail e j') \<in> set (trace (exec sched (Scraper_run s)))
               \<longrightarrow> truthy e \<and> lookup (res j') ''error'' = e)
         \<and> filter (\<lambda>a. \<not> is_job_action a) (trace (exec sched (Scraper_run s)))
             = [Emit E_scraper_start, Callback JNull, Emit E_scraper_success,
                Emit (E_scraper_end ''success''), Emit E_scraper_teardown]
         \<and> drop (length (trace (exec sched (Scraper_run s))) - 4) (trace (exec sched (Scraper_run s)))
             = [Callback JNull, Emit E_scraper_success,
                Emit (E_scraper_end ''success''), Emit E_scraper_teardown]
         \<and> (\<forall>j \<in> set (tasks (queue s)). \<forall>i acts j1 r e.
              i < length (beforeScraping_mws (middlewares s))
              \<and> queue_worker (take i (beforeScraping s)) j = acts @ [Emit (E_job_success j1)]
              \<and> (beforeScraping_mws (middlewares s) ! i) (req j1) = (r, e) \<and> truthy e \<longrightarrow>
                Emit (E_job_fail e (set_error e (j1\<lparr> req := r \<rparr>)))
                  \<in> set (trace (exec sched (Scraper_run s)))
                \<and> lookup (res (set_error e (j1\<lparr> req := r \<rparr>))) ''error'' = e
                \<and> (keeps_id fetch \<and> distinct (map job_id (tasks (queue s))) \<longrightarrow>
                     about (job_id j) (trace (exec sched (Scraper_run s)))
                       = acts @ [Invoke (BeforeScraping_mw i) j1,
                                 Emit (E_job_fail e (set_error e (j1\<lparr> req := r \<rparr>)))]))
         \<and> (\<forall>j \<in> set (tasks (queue s)). \<forall>acts j1 j2 e.
              queue_worker (beforeScraping s) j = acts @ [Emit (E_job_success j1)]
              \<and> fetch j1 = (j2, e) \<and> truthy e \<longrightarrow>
                Emit (E_job_fail e (set_error e j2)) \<in> set (trace (exec sched (Scraper_run s)))
                \<and> lookup (res (set_error e j2)) ''error'' = e
                \<and> (keeps_id fetch \<and> distinct (map job_id (tasks (queue s))) \<longrightarrow>
                     about (job_id j) (trace (exec sched (Scraper_run s)))
                       = acts @ [Invoke Engine_fetch j1, Emit (E_job_fail e (set_error e j2))]))
         \<and> (\<forall>j \<in> set (tasks (queue s)). \<forall>acts j1 j2 e0 k acts' j3 r rs e.
              queue_worker (beforeScraping s) j = acts @ [Emit (E_job_success j1)]
              \<and> fetch j1 = (j2, e0) \<and> \<not> truthy e0
              \<and> k < length (afterScraping_mws (middlewares s))
              \<and> queue_worker (take k (afterScraping s)) j2 = acts' @ [Emit (E_job_success j3)]
              \<and> (afterScraping_mws (middlewares s) ! k) (req j3) (res j3) = ((r, rs), e)
              \<and> truthy e \<longrightarrow>
                Emit (E_job_fail e (set_error e (j3\<lparr> req := r, res := rs \<rparr>)))
                  \<in> set (trace (exec sched (Scraper_run s)))
                \<and> lookup (res (set_error e (j3\<lparr> req := r, res := rs \<rparr>))) ''error'' = e
                \<and> (keeps_id fetch \<and> distinct (map job_id (tasks (queue s))) \<longrightarrow>
                     about (job_id j) (trace (exec sched (Scraper_run s)))
                       = acts @ Invoke Engine_fetch j1 # acts'
                         @ [Invoke (AfterScraping_mw k) j3,
                            Emit (E_job_fail e (set_error e (j3\<lparr> req := r, res := rs \<rparr>)))]))
         \<and> (\<forall>j \<in> set (tasks (queue s)). \<forall>acts j1 j2 e0 acts' j3.
              queue_worker (beforeScraping s) j = acts @ [Emit (E_job_success j1)]
              \<and> fetch j1 = (j2, e0) \<and> \<not> truthy e0
              \<and> queue_worker (afterScraping s) j2 = acts' @ [Emit (E_job_success j3)] \<longrightarrow>
                Emit (E_job_success j3) \<in> set (trace (exec sched (Scraper_run s)))
                \<and> (keeps_id fetch \<and> distinct (map job_id (tasks (queue s))) \<longrightarrow>
                     about (job_id j) (trace (exec sched (Scraper_run s)))
                       = acts @ Invoke Engine_fetch j1 # acts' @ [Emit (E_job_success j3)]))"
proof -
  let ?s' = "exec sched (Scraper_run s)"
  have en: "engine s \<noteq> None" using assms(2) by simp
  have c: "closed ?s'" using assms(1) en assms(3-6) by (rule run_completes)
  have m: "mset (filter is_job_action (trace ?s'))
           = (\<Sum>j\<leftarrow>tasks (queue s). mset (queue_worker (pipeline s) j))"
    using assms(1) en assms(3-6) by (rule run_job_actions)
  have sub: "set (queue_worker (pipeline s) j) \<subseteq> set (trace ?s')"
    if "j \<in> set (tasks (queue s))" for j
  proof
    fix a assume "a \<in> set (queue_worker (pipeline s) j)"
    with that have "a \<in># (\<Sum>j\<leftarrow>tasks (queue s). mset (queue_worker (pipeline s) j))"
      by (rule sum_mset_member)
    then have "a \<in># mset (filter is_job_action (trace ?s'))" by (simp only: m)
    then show "a \<in> set (trace ?s')" by simp
  qed
  have own: "about (job_id j) (trace ?s') = queue_worker (pipeline s) j"
    if "keeps_id fetch" "distinct (map job_id (tasks (queue s)))" "j \<in> set (tasks (queue s))" for j
    using assms(1,2) that(1) assms(3,4) that(2,3) assms(6) by (rule run_job_story)
  have f: "truthy e \<and> lookup (res j') ''error'' = e"
    if "Emit (E_job_fail e j') \<in> set (trace ?s')" for e j'
  proof -
    from that have "Emit (E_job_fail e j') \<in># mset (filter is_job_action (trace ?s'))" by simp
    then have "Emit (E_job_fail e j') \<in># (\<Sum>j\<leftarrow>tasks (queue s). mset (queue_worker (pipeline s) j))"
      by (simp only: m)
    then obtain j where "Emit (E_job_fail e j') \<in> set (queue_worker (pipeline s) j)"
      by (blast dest: in_sum_mset)
    then show ?thesis by (rule fail_event)
  qed
  from closed_lifecycle [OF c] have l: "filter (\<lambda>a. \<not> is_job_action a) (trace ?s')
             = [Emit E_scraper_start, Callback JNull, Emit E_scraper_success,
                Emit (E_scraper_end ''success''), Emit E_scraper_teardown]"
    by (simp add: closing_actions_def)
  from c have d: "drop (length (trace ?s') - 4) (trace ?s')
             = [Callback JNull, Emit E_scraper_success,
                Emit (E_scraper_end ''success''), Emit E_scraper_teardown]"
    by (simp add: closed_def closing_actions_def)
  have seen: "last (queue_worker (pipeline s) j) \<in> set (trace ?s')
              \<and> (keeps_id fetch \<and> distinct (map job_id (tasks (queue s))) \<longrightarrow>
                   about (job_id j) (trace ?s') = queue_worker (pipeline s) j)"
    if "j \<in> set (tasks (queue s))" "queue_worker (pipeline s) j \<noteq> []" for j
    using sub [OF that(1)] own [OF _ _ that(1)] last_in_set [OF that(2)] by blast
  have bf: "Emit (E_job_fail e (set_error e (j1\<lparr> req := r \<rparr>))) \<in> set (trace ?s')
            \<and> lookup (res (set_error e (j1\<lparr> req := r \<rparr>))) ''error'' = e
            \<and> (keeps_id fetch \<and> distinct (map job_id (tasks (queue s))) \<longrightarrow>
                 about (job_id j) (trace ?s')
                   = acts @ [Invoke (BeforeScraping_mw i) j1,
                             Emit (E_job_fail e (set_error e (j1\<lparr> req := r \<rparr>)))])"
    if h: "j \<in> set (tasks (queue s))" "i < length (beforeScraping_mws (middlewares s))"
      "queue_worker (take i (beforeScraping s)) j = acts @ [Emit (E_job_success j1)]"
      "(beforeScraping_mws (middlewares s) ! i) (req j1) = (r, e)" "truthy e"
    for j i acts j1 r e
  proof -
    have q: "queue_worker (pipeline s) j
               = acts @ [Invoke (BeforeScraping_mw i) j1,
                         Emit (E_job_fail e (set_error e (j1\<lparr> req := r \<rparr>)))]"
      using h(2-5) by (rule beforeScraping_fails)
    from seen [OF h(1)] show ?thesis unfolding q by (simp add: set_error_lookup)
  qed
  have ef: "Emit (E_job_fail e (set_error e j2)) \<in> set (trace ?s')
            \<and> lookup (res (set_error e j2)) ''error'' = e
            \<and> (keeps_id fetch \<and> distinct (map job_id (tasks (queue s))) \<longrightarrow>
                 about (job_id j) (trace ?s')
                   = acts @ [Invoke Engine_fetch j1, Emit (E_job_fail e (set_error e j2))])"
    if h: "j \<in> set (tasks (queue s))"
      "queue_worker (beforeScraping s) j = acts @ [Emit (E_job_success j1)]"
      "fetch j1 = (j2, e)" "truthy e"
    for j acts j1 j2 e
  proof -
    have q: "queue_worker (pipeline s) j
               = acts @ [Invoke Engine_fetch j1, Emit (E_job_fail e (set_error e j2))]"
      using assms(2) h(2-4) by (rule engine_fails)
    from seen [OF h(1)] show ?thesis unfolding q by (simp add: set_error_lookup)
  qed
  have af: "Emit (E_job_fail e (set_error e (j3\<lparr> req := r, res := rs \<rparr>))) \<in> set (trace ?s')
            \<and> lookup (res (set_error e (j3\<lparr> req := r, res := rs \<rparr>))) ''error'' = e
            \<and> (keeps_id fetch \<and> distinct (map job_id (tasks (queue s))) \<longrightarrow>
                 about (job_id j) (trace ?s')
                   = acts @ Invoke Engine_fetch j1 # acts'
                     @ [Invoke (AfterScraping_mw k) j3,
                        Emit (E_job_fail e (set_error e (j3\<lparr> req := r, res := rs \<rparr>)))])"
    if h: "j \<in> set (tasks (queue s))"
      "queue_worker (beforeScraping s) j = acts @ [Emit (E_job_success j1)]"
      "fetch j1 = (j2, e0)" "\<not> truthy e0"
      "k < length (afterScraping_mws (middlewares s))"
      "queue_worker (take k (afterScraping s)) j2 = acts' @ [Emit (E_job_success j3)]"
      "(afterScraping_mws (middlewares s) ! k) (req j3) (res j3) = ((r, rs), e)" "truthy e"
    for j acts j1 j2 e0 k acts' j3 r rs e
  proof -
    have q: "queue_worker (pipeline s) j
               = acts @ Invoke Engine_fetch j1 # acts'
                 @ [Invoke (AfterScraping_mw k) j3,
                    Emit (E_job_fail e (set_error e (j3\<lparr> req := r, res := rs \<rparr>)))]"
      using assms(2) h(2-8) by (rule afterScraping_fails)
    from seen [OF h(1)] show ?thesis unfolding q by (simp add: set_error_lookup)
  qed
  have sp: "Emit (E_job_success j3) \<in> set (trace ?s')
            \<and> (keeps_id fetch \<and> distinct (map job_id (tasks (queue s))) \<longrightarrow>
                 about (job_id j) (trace ?s')
                   = acts @ Invoke Engine_fetch j1 # acts' @ [Emit (E_job_success j3)])"
    if h: "j \<in> set (tasks (queue s))"
      "queue_worker (beforeScraping s) j = acts @ [Emit (E_job_success j1)]"
      "fetch j1 = (j2, e0)" "\<not> truthy e0"
      "queue_worker (afterScraping s) j2 = acts' @ [Emit (E_job_success j3)]"
    for j acts j1 j2 e0 acts' j3
  proof -
    have q: "queue_worker (pipeline s) j
               = acts @ Invoke Engine_fetch j1 # acts' @ [Emit (E_job_success j3)]"
      using assms(2) h(2-5) by (rule stages_pass)
    from seen [OF h(1)] show ?thesis unfolding q by simp
  qed
  have c2: "\<forall>j \<in> set (tasks (queue s)).
               set (queue_worker (pipeline s) j) \<subseteq> set (trace ?s')"
    using sub by blast
  have c3: "keeps_id fetch \<and> distinct (map job_id (tasks (queue s))) \<longrightarrow>
              (\<forall>j \<in> set (tasks (queue s)).
                 about (job_id j) (trace ?s') = queue_worker (pipeline s) j)"
    using own by blast
  have c4: "\<forall>e j'. Emit (E_job_fail e j') \<in> set (trace ?s')
               \<longrightarrow> truthy e \<and> lookup (res j') ''error'' = e"
    using f by blast
  show ?thesis
    apply (intro conjI)
             apply (rule m)
            apply (rule c2)
           apply (rule c3)
          apply (rule c4)
         apply (rule l)
        apply (rule d)
       apply (intro ballI allI impI, elim conjE, rule bf; assumption)
      apply (intro ballI allI impI, elim conjE, rule ef; assumption)
     apply (intro ballI allI impI, elim conjE, rule af; assumption)
    apply (intro ballI allI impI, elim conjE, rule sp; assumption)
    done
qed

theorem job_errors_isolated_witness:
  "idle demo \<and> engine demo = Some demo_fetch \<and> 0 < concurrency (queue demo)
   \<and> series (before_mws (middlewares demo)) = None \<and> tasks (queue demo) = [demo_job, demo_job_b]
   \<and> length (tasks (queue demo)) * length (pipeline demo) \<le> length [1, 0 :: nat]
   \<and> keeps_id demo_fetch \<and> distinct (map job_id (tasks (queue demo)))
   \<and> demo_fetch demo_job = (demo_job\<lparr> res := [(''status'', JNum 200)] \<rparr>, JNull)
   \<and> demo_fetch demo_job_b = (demo_job_b, JStr ''unreachable'')
   \<and> truthy (JStr ''unreachable'')
   \<and> about (job_id demo_job) (trace (exec [1, 0] (Scraper_run demo)))
        = [Invoke Engine_fetch demo_job,
           Emit (E_job_success (demo_job\<lparr> res := [(''status'', JNum 200)] \<rparr>))]
   \<and> about (job_id demo_job_b) (trace (exec [1, 0] (Scraper_run demo)))
        = [Invoke Engine_fetch demo_job_b,
           Emit (E_job_fail (JStr ''unreachable'') (set_error (JStr ''unreachable'') demo_job_b))]
   \<and> Emit (E_job_fail (JStr ''unreachable'') (set_error (JStr ''unreachable'') demo_job_b))
        \<in> set (trace (exec [1, 0] (Scraper_run demo)))
   \<and> lookup (res (set_error (JStr ''unreachable'') demo_job_b)) ''error'' = JStr ''unreachable''
   \<and> filter (\<lambda>a. \<not> is_job_action a) (trace (exec [1, 0] (Scraper_run demo)))
        = [Emit E_scraper_start, Callback JNull, Emit E_scraper_success,
           Emit (E_scraper_end ''success''), Emit E_scraper_teardown]
   \<and> trace (exec [1, 0] (Scraper_run demo))
        = [Emit E_scraper_start, Invoke Engine_fetch demo_job, Invoke Engine_fetch demo_job_b,
           Emit (E_job_fail (JStr ''unreachable'') (set_error (JStr ''unreachable'') demo_job_b)),
           Emit (E_job_success (demo_job\<lparr> res := [(''status'', JNum 200)] \<rparr>)),
           Callback JNull, Emit E_scraper_success, Emit (E_scraper_end ''success''),
           Emit E_scraper_teardown]"
proof -
  have h3: "0 < concurrency (queue demo)" by (simp add: demo_queue)
  have h4: "series (before_mws (middlewares demo)) = None" by (simp add: demo_queue)
  have h5: "tasks (queue demo) \<noteq> []" by (simp add: demo_jobs)
  have h6: "length (tasks (queue demo)) * length (pipeline demo) \<le> length [1, 0 :: nat]"
    by (simp add: demo_queue demo_pipeline)
  have ma: "demo_job \<in> set (tasks (queue demo))" and mb: "demo_job_b \<in> set (tasks (queue demo))"
    by (simp_all add: demo_jobs)
  have nn: "\<not> truthy JNull" and tt: "truthy (JStr ''unreachable'')" by simp_all
  note t = job_errors_isolated [OF demo_idle demo_queue(3) h3 h4 h5 h6]
  note life = t [THEN conjunct2, THEN conjunct2, THEN conjunct2, THEN conjunct2, THEN conjunct1]
  note engine_case = t [THEN conjunct2, THEN conjunct2, THEN conjunct2, THEN conjunct2,
      THEN conjunct2, THEN conjunct2, THEN conjunct2, THEN conjunct1, THEN bspec, OF mb,
      THEN spec, THEN spec, THEN spec, THEN spec, THEN mp,
      OF conjI [OF demo_fetches(3) conjI [OF demo_fetches(2) tt]]]
  note success_case = t [THEN conjunct2, THEN conjunct2, THEN conjunct2, THEN conjunct2,
      THEN conjunct2, THEN conjunct2, THEN conjunct2, THEN conjunct2, THEN conjunct2,
      THEN bspec, OF ma, THEN spec, THEN spec, THEN spec, THEN spec, THEN spec, THEN spec, THEN mp,
      OF conjI [OF demo_fetches(3) conjI [OF demo_fetches(1) conjI [OF nn demo_fetches(4)]]]]
  from engine_case demo_keeps demo_distinct
  have b: "about (job_id demo_job_b) (trace (exec [1, 0] (Scraper_run demo)))
        = [Invoke Engine_fetch demo_job_b,
           Emit (E_job_fail (JStr ''unreachable'') (set_error (JStr ''unreachable'') demo_job_b))]"
    and b': "Emit (E_job_fail (JStr ''unreachable'') (set_error (JStr ''unreachable'') demo_job_b))
        \<in> set (trace (exec [1, 0] (Scraper_run demo)))"
    and b'': "lookup (res (set_error (JStr ''unreachable'') demo_job_b)) ''error'' = JStr ''unreachable''"
    by simp_all
  from success_case demo_keeps demo_distinct
  have a: "about (job_id demo_job) (trace (exec [1, 0] (Scraper_run demo)))
        = [Invoke Engine_fetch demo_job,
           Emit (E_job_success (demo_job\<lparr> res := [(''status'', JNum 200)] \<rparr>))]"
    by simp
  from a b b' b'' life demo_trace demo_idle demo_queue(3) h3 h4 h6 demo_jobs demo_keeps
    demo_distinct demo_fetches(1,2) tt
  show ?thesis by (intro conjI)
qed

text \<open>
  C3. Take a job for which the first \<open>i\<close> \<^verbatim>\<open>beforeScraping\<close> middlewares call
  back without an error, leaving the job as \<open>j'\<close>, and the next one calls back with
  the error \<open>e\<close>. Then the worker makes the calls of those \<open>i\<close> middlewares, then the
  call of the failing one, and emits \<^verbatim>\<open>job:fail\<close> with \<open>e\<close> and the job, whose
  \<open>res\<close> holds \<open>e\<close> under \<^verbatim>\<open>error\<close>; nothing else. The stages called are the
  \<^verbatim>\<open>beforeScraping\<close> middlewares 0 to \<open>i\<close>, in that order. In a run where this job
  was pushed (the engine keeping the identifier of the jobs, the identifiers distinct),
  at every moment of every schedule the part of the log about the job is an initial
  part of that list, so it holds no call of the engine's \<^verbatim>\<open>fetch\<close> and no call of
  an \<^verbatim>\<open>afterScraping\<close> middleware; and once the schedule is long enough for every
  call to call back it is the whole list, ending with the \<^verbatim>\<open>job:fail\<close>.
\<close>

theorem beforeScraping_failure:
  assumes "i < length (beforeScraping_mws (middlewares s))"
    and "queue_worker (take i (beforeScraping s)) j = acts @ [Emit (E_job_success j')]"
    and "(beforeScraping_mws (middlewares s) ! i) (req j') = (r, e)"
    and "truthy e"
  shows "queue_worker (pipeline s) j
           = acts @ [Invoke (BeforeScraping_mw i) j',
                     Emit (E_job_fail e (set_error e (j'\<lparr> req := r \<rparr>)))]
         \<and> invoked (queue_worker (pipeline s) j) = map BeforeScraping_mw [0..<Suc i]
         \<and> lookup (res (set_error e (j'\<lparr> req := r \<rparr>))) ''error'' = e
         \<and> (idle s \<and> engine s = Some fetch \<and> keeps_id fetch
              \<and> distinct (map job_id (tasks (queue s))) \<and> j \<in> set (tasks (queue s)) \<longrightarrow>
              prefix (about (job_id j) (trace (exec sched (Scraper_run s))))
                     (acts @ [Invoke (BeforeScraping_mw i) j',
                              Emit (E_job_fail e (set_error e (j'\<lparr> req := r \<rparr>)))])
              \<and> Engine_fetch \<notin> set (invoked (about (job_id j) (trace (exec sched (Scraper_run s)))))
              \<and> (\<forall>k. AfterScraping_mw k
                       \<notin> set (invoked (about (job_id j) (trace (exec sched (Scraper_run s))))))
              \<and> (0 < concurrency (queue s) \<and> series (before_mws (middlewares s)) = None
                   \<and> length (tasks (queue s)) * length (pipeline s) \<le> length sched \<longrightarrow>
                   about (job_id j) (trace (exec sched (Scraper_run s)))
                     = acts @ [Invoke (BeforeScraping_mw i) j',
                               Emit (E_job_fail e (set_error e (j'\<lparr> req := r \<rparr>)))]))"
proof -
  let ?bs = "beforeScraping s"
  let ?s' = "exec sched (Scraper_run s)"
  have len: "i < length ?bs" using assms(1) by (simp add: beforeScraping_def)
  have split: "pipeline s = take i ?bs @ (?bs ! i # drop (Suc i) ?bs @ scrape s @ afterScraping s)"
    using id_take_nth_drop [OF len] by (simp add: pipeline_def)
  have run: "queue_worker (pipeline s) j
           = acts @ [Invoke (BeforeScraping_mw i) j',
                     Emit (E_job_fail e (set_error e (j'\<lparr> req := r \<rparr>)))]"
    unfolding split series_continues [OF assms(2)]
    by (simp add: before_nth [OF assms(1)] assms(3,4))
  have "invoked acts = map stage_of (take i ?bs)" using assms(2) by (rule series_invoked)
  also have "\<dots> = take i (map stage_of ?bs)" by (simp add: take_map)
  also have "\<dots> = take i (map BeforeScraping_mw [0..<length (beforeScraping_mws (middlewares s))])"
    by (simp only: before_stages)
  also have "\<dots> = map BeforeScraping_mw [0..<i]"
    using assms(1) by (simp add: take_map)
  finally have inv: "invoked (queue_worker (pipeline s) j) = map BeforeScraping_mw [0..<Suc i]"
    unfolding run by (simp add: invoked_append)
  have err: "lookup (res (set_error e (j'\<lparr> req := r \<rparr>))) ''error'' = e"
    by (simp add: set_error_def lookup_def AList.update_conv')
  have nf: "Engine_fetch \<notin> set (invoked (queue_worker (pipeline s) j))"
    and na: "AfterScraping_mw k \<notin> set (invoked (queue_worker (pipeline s) j))" for k
    unfolding inv by auto
  have live: "prefix (about (job_id j) (trace ?s'))
                     (acts @ [Invoke (BeforeScraping_mw i) j',
                              Emit (E_job_fail e (set_error e (j'\<lparr> req := r \<rparr>)))])
              \<and> Engine_fetch \<notin> set (invoked (about (job_id j) (trace ?s')))
              \<and> (\<forall>k. AfterScraping_mw k \<notin> set (invoked (about (job_id j) (trace ?s'))))
              \<and> (0 < concurrency (queue s) \<and> series (before_mws (middlewares s)) = None
                   \<and> length (tasks (queue s)) * length (pipeline s) \<le> length sched \<longrightarrow>
                   about (job_id j) (trace ?s')
                     = acts @ [Invoke (BeforeScraping_mw i) j',
                               Emit (E_job_fail e (set_error e (j'\<lparr> req := r \<rparr>)))])"
    if h: "idle s" "engine s = Some fetch" "keeps_id fetch"
      "distinct (map job_id (tasks (queue s)))" "j \<in> set (tasks (queue s))"
  proof -
    have p: "prefix (about (job_id j) (trace ?s')) (queue_worker (pipeline s) j)"
      using h by (rule run_job_prefix)
    have a: "Engine_fetch \<notin> set (invoked (about (job_id j) (trace ?s')))"
      using p nf by (rule prefix_invoked_notin)
    have b: "AfterScraping_mw k \<notin> set (invoked (about (job_id j) (trace ?s')))" for k
      using p na by (rule prefix_invoked_notin)
    have c: "about (job_id j) (trace ?s') = queue_worker (pipeline s) j"
      if "0 < concurrency (queue s)" "series (before_mws (middlewares s)) = None"
        "length (tasks (queue s)) * length (pipeline s) \<le> length sched"
      using h(1-3) that(1,2) h(4,5) that(3) by (rule run_job_story)
    from p a b c show ?thesis unfolding run by blast
  qed
  from run inv err live show ?thesis by blast
qed

theorem beforeScraping_failure_witness:
  "1 < length (beforeScraping_mws (middlewares demo_guarded))
   \<and> queue_worker (take 1 (beforeScraping demo_guarded)) demo_job
       = [Invoke (BeforeScraping_mw 0) demo_job]
         @ [Emit (E_job_success (demo_job\<lparr> req := (req demo_job)\<lparr> params := JObj [(''seen'', JBool True)] \<rparr> \<rparr>))]
   \<and> truthy (JStr ''blocked'')
   \<and> idle demo_guarded \<and> engine demo_guarded = Some demo_fetch \<and> keeps_id demo_fetch
   \<and> distinct (map job_id (tasks (queue demo_guarded)))
   \<and> demo_job \<in> set (tasks (queue demo_guarded))
   \<and> 0 < concurrency (queue demo_guarded)
   \<and> series (before_mws (middlewares demo_guarded)) = None
   \<and> length (tasks (queue demo_guarded)) * length (pipeline demo_guarded) \<le> length [0, 1, 0, 1, 0, 1 :: nat]
   \<and> invoked (queue_worker (pipeline demo_guarded) demo_job)
       = [BeforeScraping_mw 0, BeforeScraping_mw 1]
   \<and> Engine_fetch \<notin> set (invoked (about (job_id demo_job)
                           (trace (exec [0, 1, 0, 1, 0, 1] (Scraper_run demo_guarded)))))
   \<and> about (job_id demo_job) (trace (exec [0, 1, 0, 1, 0, 1] (Scraper_run demo_guarded)))
       = [Invoke (BeforeScraping_mw 0) demo_job,
          Invoke (BeforeScraping_mw 1)
            (demo_job\<lparr> req := (req demo_job)\<lparr> params := JObj [(''seen'', JBool True)] \<rparr> \<rparr>),
          Emit (E_job_fail (JStr ''blocked'')
            (set_error (JStr ''blocked'')
               (demo_job\<lparr> req := (req demo_job)\<lparr> params := JObj [(''seen'', JBool True)] \<rparr> \<rparr>)))]"
proof -
  let ?j' = "demo_job\<lparr> req := (req demo_job)\<lparr> params := JObj [(''seen'', JBool True)] \<rparr> \<rparr>"
  have h1: "1 < length (beforeScraping_mws (middlewares demo_guarded))"
    by (simp add: demo_guarded_def)
  have h2: "queue_worker (take 1 (beforeScraping demo_guarded)) demo_job
       = [Invoke (BeforeScraping_mw 0) demo_job] @ [Emit (E_job_success ?j')]"
    by (simp add: demo_guarded_def beforeScraping_def)
  have h3: "(beforeScraping_mws (middlewares demo_guarded) ! 1) (req ?j') = (req ?j', JStr ''blocked'')"
    by (simp add: demo_guarded_def)
  have h4: "truthy (JStr ''blocked'')" by simp
  have g1: "distinct (map job_id (tasks (queue demo_guarded)))"
    using demo_distinct by (simp add: demo_guarded_facts)
  have g2: "demo_job \<in> set (tasks (queue demo_guarded))"
    using demo_member by (simp add: demo_guarded_facts)
  have g3: "0 < concurrency (queue demo_guarded)" by (simp add: demo_guarded_facts)
  have g4: "series (before_mws (middlewares demo_guarded)) = None" by (simp add: demo_guarded_facts)
  have g5: "length (tasks (queue demo_guarded)) * length (pipeline demo_guarded)
              \<le> length [0, 1, 0, 1, 0, 1 :: nat]"
    by (simp add: demo_guarded_facts demo_queue)
  note t = beforeScraping_failure [OF h1 h2 h3 h4, of demo_fetch "[0, 1, 0, 1, 0, 1]"]
  from t have a: "invoked (queue_worker (pipeline demo_guarded) demo_job)
       = [BeforeScraping_mw 0, BeforeScraping_mw 1]"
    by (simp add: upt_rec)
  from t demo_guarded_facts(1,2) demo_keeps g1 g2
  have b: "Engine_fetch \<notin> set (invoked (about (job_id demo_job)
                           (trace (exec [0, 1, 0, 1, 0, 1] (Scraper_run demo_guarded)))))"
    by blast
  from t demo_guarded_facts(1,2) demo_keeps g1 g2 g3 g4 g5
  have c: "about (job_id demo_job) (trace (exec [0, 1, 0, 1, 0, 1] (Scraper_run demo_guarded)))
       = [Invoke (BeforeScraping_mw 0) demo_job] @ [Invoke (BeforeScraping_mw 1) ?j',
          Emit (E_job_fail (JStr ''blocked'') (set_error (JStr ''blocked'') (?j'\<lparr> req := req ?j' \<rparr>)))]"
    by blast
  have d: "?j'\<lparr> req := req ?j' \<rparr> = ?j'" by simp
  from a b c h1 h2 h4 demo_guarded_facts(1,2) demo_keeps g1 g2 g3 g4 g5
  show ?thesis unfolding d by simp
qed

text \<open>
  C4 does not hold of \<^verbatim>\<open>run\<close> when no job was pushed. Take the scraper of the
  scenario with its engine mounted, the default bound, no \<^verbatim>\<open>before\<close> middleware and
  no url. \<^verbatim>\<open>run\<close> emits \<^verbatim>\<open>scraper:start\<close>, the empty series succeeds, lines 181
  to 188 install the drain callback and resume the queue, and that is all: whatever is
  scheduled, the log stays at \<^verbatim>\<open>scraper:start\<close>, the completion callback is never
  called, the drain callback stays installed and is never called, no worker is busy and
  no task waits, so nothing is left that could call it later, and the scraper is never
  fulfilled. The drain condition of the spec, no pending jobs and no active workers,
  holds from the moment the queue is resumed. The two other paths of \<^verbatim>\<open>run\<close> do
  call the completion callback once (\<open>run_outcomes\<close>): \<^verbatim>\<open>run\<close> relies on the drain
  callback alone to end a run and misses the case of a queue that is already empty.
\<close>

theorem run_without_jobs:
  "idle demo_empty \<and> engine demo_empty = Some demo_fetch
   \<and> concurrency (queue demo_empty) = 2
   \<and> series (before_mws (middlewares demo_empty)) = None
   \<and> tasks (queue demo_empty) = []
   \<and> (\<forall>sched.
        trace (exec sched (Scraper_run demo_empty)) = [Emit E_scraper_start]
        \<and> filter is_callback (trace (exec sched (Scraper_run demo_empty))) = []
        \<and> drain (queue (exec sched (Scraper_run demo_empty)))
        \<and> workers (queue (exec sched (Scraper_run demo_empty))) = []
        \<and> tasks (queue (exec sched (Scraper_run demo_empty))) = []
        \<and> \<not> fulfilled (state (exec sched (Scraper_run demo_empty))))"
proof -
  have n: "series (before_mws (middlewares demo_empty)) = None"
    and t: "tasks (queue demo_empty) = []"
    by (simp_all add: demo_empty_queue)
  from run_outcomes [OF demo_empty_idle, of JNull] n t
  have "trace (exec sched (Scraper_run demo_empty)) = [Emit E_scraper_start]
        \<and> workers (queue (exec sched (Scraper_run demo_empty))) = []
        \<and> tasks (queue (exec sched (Scraper_run demo_empty))) = []
        \<and> drain (queue (exec sched (Scraper_run demo_empty)))
        \<and> fulfilled (state (exec sched (Scraper_run demo_empty))) = fulfilled (state demo_empty)"
    for sched by blast
  with demo_empty_idle demo_empty_mounted n t show ?thesis by simp
qed

section \<open>Concurrency\<close>

text \<open>
  C5. At every moment of every schedule of a run, the number of workers whose call in
  flight is the engine's \<^verbatim>\<open>fetch\<close> is at most the queue's bound, so at most one with
  a bound of 1; the bound does not change during the run. Every busy worker has one
  call in flight, and that call followed by the calls it still has to make is the
  rest of the pipeline from some point on. For each job (the engine keeping the
  identifier of the jobs, the identifiers distinct) the stages called so far are an
  initial part of: the \<^verbatim>\<open>beforeScraping\<close> middlewares in order, the engine's
  \<^verbatim>\<open>fetch\<close>, the \<^verbatim>\<open>afterScraping\<close> middlewares in order; so no stage is called
  twice or out of order. A scraper built while the defaults hold no (truthy)
  \<^verbatim>\<open>maxConcurrency\<close> has the bound 1.
\<close>

theorem fetch_bound:
  assumes "idle s"
  shows "length (filter in_fetch (workers (queue (exec sched (Scraper_run s)))))
           \<le> concurrency (queue s)
         \<and> (concurrency (queue s) = 1 \<longrightarrow>
              length (filter in_fetch (workers (queue (exec sched (Scraper_run s))))) \<le> 1)
         \<and> concurrency (queue (exec sched (Scraper_run s))) = concurrency (queue s)
         \<and> (\<forall>w \<in> set (workers (queue (exec sched (Scraper_run s)))).
              suffix (Call (w_stage w) (w_call w) # w_later w) (pipeline s)
              \<and> sorted (map phase (w_stage w # map stage_of (w_later w))))
         \<and> (engine s = Some fetch \<and> keeps_id fetch \<and> distinct (map job_id (tasks (queue s))) \<longrightarrow>
              (\<forall>j \<in> set (tasks (queue s)).
                 prefix (invoked (about (job_id j) (trace (exec sched (Scraper_run s)))))
                   (map BeforeScraping_mw [0..<length (beforeScraping_mws (middlewares s))]
                    @ Engine_fetch
                    # map AfterScraping_mw [0..<length (afterScraping_mws (middlewares s))])))
         \<and> (\<not> truthy (lookup (store w defaults) ''maxConcurrency'') \<longrightarrow>
              concurrency (queue (Scraper uuid nm w)) = 1)"
proof -
  let ?s' = "exec sched (Scraper_run s)"
  have "length (workers (queue (Scraper_run s))) \<le> concurrency (queue (Scraper_run s))"
    using run_bound [OF assms] by simp
  from exec_bound [OF this, of sched]
  have b: "length (workers (queue ?s')) \<le> concurrency (queue s)" by simp
  have "length (filter in_fetch (workers (queue ?s'))) \<le> length (workers (queue ?s'))"
    by (rule length_filter_le)
  with b have f: "length (filter in_fetch (workers (queue ?s'))) \<le> concurrency (queue s)"
    by (rule order_trans [rotated])
  have o: "in_order ?s'" using run_in_order [OF assms] by (rule exec_in_order)
  have w: "suffix (Call (w_stage w) (w_call w) # w_later w) (pipeline s)
           \<and> sorted (map phase (w_stage w # map stage_of (w_later w)))"
    if "w \<in> set (workers (queue ?s'))" for w
    using o that in_order_sorted [OF o that] by (simp add: in_order_def)
  have p: "prefix (invoked (about (job_id j) (trace ?s')))
                   (map BeforeScraping_mw [0..<length (beforeScraping_mws (middlewares s))]
                    @ Engine_fetch
                    # map AfterScraping_mw [0..<length (afterScraping_mws (middlewares s))])"
    if h: "engine s = Some fetch" "keeps_id fetch" "distinct (map job_id (tasks (queue s)))"
      "j \<in> set (tasks (queue s))" for j
  proof -
    have "prefix (about (job_id j) (trace ?s')) (queue_worker (pipeline s) j)"
      using assms h by (rule run_job_prefix)
    then have "prefix (invoked (about (job_id j) (trace ?s')))
                 (invoked (queue_worker (pipeline s) j))"
      by (rule invoked_prefix)
    also have "prefix (invoked (queue_worker (pipeline s) j)) (map stage_of (pipeline s))"
      by (rule series_stages)
    finally show ?thesis by (simp only: pipeline_stages)
  qed
  have d: "\<not> truthy (lookup (store w defaults) ''maxConcurrency'') \<longrightarrow>
              concurrency (queue (Scraper uuid nm w)) = 1"
    by (simp add: Scraper_def Let_def js_or_def)
  from f w p d show ?thesis by simp
qed

theorem fetch_bound_witness:
  "idle demo
   \<and> length (filter in_fetch (workers (queue (exec [1] (Scraper_run demo))))) \<le> 2
   \<and> map w_stage (workers (queue (exec [1] (Scraper_run demo)))) = [Engine_fetch]
   \<and> sorted (map phase (w_stage (hd (workers (queue (exec [1] (Scraper_run demo)))))
                         # map stage_of (w_later (hd (workers (queue (exec [1] (Scraper_run demo))))))))
   \<and> engine demo = Some demo_fetch \<and> keeps_id demo_fetch
   \<and> distinct (map job_id (tasks (queue demo))) \<and> demo_job \<in> set (tasks (queue demo))
   \<and> prefix (invoked (about (job_id demo_job) (trace (exec [1] (Scraper_run demo)))))
        [Engine_fetch]
   \<and> \<not> truthy (lookup (store \<lparr> store = (\<lambda>r. []), next_ref = 1 \<rparr> defaults) ''maxConcurrency'')
   \<and> concurrency (queue (Scraper ''s'' '''' \<lparr> store = (\<lambda>r. []), next_ref = 1 \<rparr>)) = 1"
proof -
  let ?ws = "workers (queue (exec [1] (Scraper_run demo)))"
  have u: "\<not> truthy (lookup (store \<lparr> store = (\<lambda>r. []), next_ref = 1 \<rparr> defaults) ''maxConcurrency'')"
    by (simp add: lookup_def)
  from demo_running have "?ws \<noteq> []" by auto
  then have h: "hd ?ws \<in> set ?ws" by simp
  note t = fetch_bound [OF demo_idle, of "[1]" demo_fetch "\<lparr> store = (\<lambda>r. []), next_ref = 1 \<rparr>" "''s''" "''''"]
  from t have a: "length (filter in_fetch ?ws) \<le> 2" by (simp add: demo_queue)
  from t h have b: "sorted (map phase (w_stage (hd ?ws) # map stage_of (w_later (hd ?ws))))"
    by blast
  from t u have c: "concurrency (queue (Scraper ''s'' '''' \<lparr> store = (\<lambda>r. []), next_ref = 1 \<rparr>)) = 1"
    by blast
  from t demo_queue(3) demo_keeps demo_distinct demo_member
  have "prefix (invoked (about (job_id demo_job) (trace (exec [1] (Scraper_run demo)))))
          (map BeforeScraping_mw [0..<length (beforeScraping_mws (middlewares demo))]
           @ Engine_fetch
           # map AfterScraping_mw [0..<length (afterScraping_mws (middlewares demo))])"
    by blast
  then have d: "prefix (invoked (about (job_id demo_job) (trace (exec [1] (Scraper_run demo)))))
        [Engine_fetch]"
    by (simp add: demo_queue)
  from a b c d u demo_idle demo_running demo_queue(3) demo_keeps demo_distinct demo_member
  show ?thesis by blast
qed

text \<open>
  C9. The constructor gives the queue the bound \<^verbatim>\<open>this.options.maxConcurrency || 1\<close>
  as the defaults have it at that moment. \<^verbatim>\<open>config({maxConcurrency: k})\<close> makes
  \<^verbatim>\<open>this.options\<close> refer to a new object, at a fresh reference, in which
  \<^verbatim>\<open>maxConcurrency\<close> is \<open>k\<close>; it leaves the queue as it is, and the bound of the
  queue stays what it was at every moment of every schedule of the run that follows.
\<close>

theorem config_keeps_bound:
  "concurrency (queue (Scraper uuid nm w))
     = bound (js_or (lookup (store w defaults) ''maxConcurrency'') (JNum 1))
   \<and> (\<exists>s' w'. Scraper_config (JObj [(''maxConcurrency'', k)]) s w = Inr (s', w')
        \<and> options s' = next_ref w
        \<and> lookup (store w' (options s')) ''maxConcurrency'' = k
        \<and> queue s' = queue s
        \<and> concurrency (queue (exec sched (Scraper_run s'))) = concurrency (queue s))"
  by (simp add: Scraper_def Let_def Scraper_config_def lookup_extend)

theorem config_keeps_bound_witness:
  "concurrency (queue (Scraper ''s'' ''demo'' demo_world)) = 2
   \<and> (\<exists>s' w'. Scraper_config (JObj [(''maxConcurrency'', JNum 8)]) demo demo_world = Inr (s', w')
        \<and> lookup (store w' (options s')) ''maxConcurrency'' = JNum 8
        \<and> concurrency (queue (exec [0, 1] (Scraper_run s'))) = 2)"
  using config_keeps_bound [of "''s''" "''demo''" demo_world "JNum 8" demo "[0, 1]"]
  by (auto simp: demo_queue demo_world_def lookup_def js_or_def)

text \<open>
  C10. The constructor sets \<^verbatim>\<open>this.options\<close> to the reference of the shared
  defaults object. So when two scrapers still have the options the constructor gave
  them, \<^verbatim>\<open>timeout(t)\<close> on the first changes the defaults object itself, and the new
  timeout is read through the options of the second, and of any scraper built
  afterwards.
\<close>

theorem timeout_shared:
  assumes "options s1 = options (Scraper u1 n1 w1)"
    and "options s2 = options (Scraper u2 n2 w2)"
    and "types_get t = ''number''"
  shows "options (Scraper u1 n1 w1) = defaults
         \<and> (\<exists>w'. Scraper_timeout t s1 w = Inr w'
              \<and> lookup (store w' defaults) ''timeout'' = t
              \<and> lookup (store w' (options s2)) ''timeout'' = t
              \<and> lookup (store w' (options (Scraper u3 n3 w'))) ''timeout'' = t)"
  using assms
  by (simp add: Scraper_def Let_def Scraper_timeout_def lookup_def AList.update_conv')

theorem timeout_shared_witness:
  "types_get (JNum 3000) = ''number''
   \<and> (\<exists>w'. Scraper_timeout (JNum 3000) (Scraper ''a'' ''one'' demo_world) demo_world = Inr w'
        \<and> lookup (store w' (options (Scraper ''b'' ''two'' demo_world))) ''timeout'' = JNum 3000
        \<and> lookup (store w' (options (Scraper ''c'' ''three'' w'))) ''timeout'' = JNum 3000)"
  using timeout_shared [of "Scraper ''a'' ''one'' demo_world" "''a''" "''one''" demo_world
      "Scraper ''b'' ''two'' demo_world" "''b''" "''two''" demo_world "JNum 3000" demo_world
      "''c''" "''three''"]
  by auto

end
